theory Spec2Isabelle
  imports Complex_Main
begin

section \<open>Characters and strings\<close>

text \<open>
  Python strings are modelled as \<open>string\<close>. Characters are 8-bit; \<open>str.lower\<close> is
  modelled on the ASCII letters, and the whitespace class of \<open>\s\<close> and \<open>str.strip\<close>
  on the ASCII code points for which \<open>str.isspace\<close> holds (9-13, 28-32).
\<close>

definition lower_chr :: "char \<Rightarrow> char" where
  "lower_chr c =
     (case map_of (zip ''ABCDEFGHIJKLMNOPQRSTUVWXYZ'' ''abcdefghijklmnopqrstuvwxyz'') c of
        Some d \<Rightarrow> d
      | None \<Rightarrow> c)"

definition lower :: "string \<Rightarrow> string" where
  "lower s = map lower_chr s"

definition is_space :: "char \<Rightarrow> bool" where
  "is_space c =
     (c \<in> set [CHR 0x09, CHR 0x0A, CHR 0x0B, CHR 0x0C, CHR 0x0D,
                CHR 0x1C, CHR 0x1D, CHR 0x1E, CHR 0x1F, CHR 0x20])"

definition strip :: "string \<Rightarrow> string" where
  "strip s = rev (dropWhile is_space (rev (dropWhile is_space s)))"

section \<open>runner.py: the mail service and the poll\<close>

record attachment =
  att_id :: string
  filename :: string
  mimeType :: string

record gmsg =
  msg_id :: string
  internalDate :: "int option"
  headers :: "(string \<times> string) list"
  body_text :: string
  attachments :: "attachment list"

text \<open>One page of \<open>messages().list\<close>: the stubs' ids and, behind \<open>nextPageToken\<close>, the next page.\<close>

datatype resp = Resp "string list" "resp option"

record gmail =
  list_q :: "int \<Rightarrow> resp"
  get_full :: "string \<Rightarrow> gmsg"

text \<open>\<open>int(m.get("internalDate", 0))\<close>\<close>

definition its_of :: "gmsg \<Rightarrow> int" where
  "its_of m = (case internalDate m of None \<Rightarrow> 0 | Some t \<Rightarrow> t)"

text \<open>The \<open>while True\<close> loop over the pages: stops at an empty page or a page without token.\<close>

fun fetch_pages :: "gmail \<Rightarrow> resp \<Rightarrow> gmsg list" where
  "fetch_pages g (Resp ids tok) =
     (if ids = [] then []
      else map (get_full g) ids @ (case tok of None \<Rightarrow> [] | Some r \<Rightarrow> fetch_pages g r))"

definition list_new_messages :: "gmail \<Rightarrow> int \<Rightarrow> gmsg list" where
  "list_new_messages g last_ts_ms =
     (let after_seconds = max 0 (last_ts_ms div 1000);
          msgs = fetch_pages g (list_q g after_seconds);
          fresh = filter (\<lambda>m. its_of m > last_ts_ms) msgs
      in sort_key its_of fresh)"

text \<open>\<open>header_value\<close>: the first header whose name equals \<open>name\<close> ignoring case, else \<open>""\<close>.\<close>

fun header_value :: "(string \<times> string) list \<Rightarrow> string \<Rightarrow> string" where
  "header_value [] n = []"
| "header_value ((k, v) # hs) n = (if lower k = lower n then v else header_value hs n)"

text \<open>\<open>re.split(r"[;,]", block)\<close> and \<open>str.split(",")\<close>: the pieces between separators.\<close>

fun split_on :: "(char \<Rightarrow> bool) \<Rightarrow> string \<Rightarrow> string list" where
  "split_on p [] = [[]]"
| "split_on p (c # cs) =
     (if p c then [] # split_on p cs
      else (case split_on p cs of [] \<Rightarrow> [[c]] | w # ws \<Rightarrow> (c # w) # ws))"

definition get_recipients :: "gmsg \<Rightarrow> string list" where
  "get_recipients msg =
     concat (map (\<lambda>block. if block = [] then []
                           else filter (\<lambda>p. p \<noteq> [])
                                  (map strip (split_on (\<lambda>c. c = CHR '';'' \<or> c = CHR '','') block)))
       [header_value (headers msg) ''To'', header_value (headers msg) ''Cc'',
        header_value (headers msg) ''Bcc''])"

section \<open>rules.py: the classifier\<close>

record EmailContext =
  ctx_id :: string
  internal_ts :: int
  From_' :: string
  ToCcBcc :: "string list"
  Subject :: string
  Date :: string
  Body :: string
  Attachments :: "attachment list"

text \<open>\<open>re.sub(r"\s+", " ", s)\<close>: every maximal run of whitespace becomes one space.\<close>

function collapse_ws :: "string \<Rightarrow> string" where
  "collapse_ws [] = []"
| "collapse_ws (c # cs) =
     (if is_space c then CHR '' '' # collapse_ws (dropWhile is_space cs)
      else c # collapse_ws cs)"
  by pat_completeness auto
termination
  by (relation "measure length") (auto simp: length_dropWhile_le less_Suc_eq_le)

definition norm_spaces :: "string \<Rightarrow> string" where
  "norm_spaces s = strip (collapse_ws (lower s))"

text \<open>Python's \<open>needle in hay\<close> on strings, \<open>str.startswith\<close> and \<open>str.endswith\<close>.\<close>

fun startswith :: "string \<Rightarrow> string \<Rightarrow> bool" where
  "startswith s [] = True"
| "startswith [] (p # ps) = False"
| "startswith (c # cs) (p # ps) = (c = p \<and> startswith cs ps)"

fun str_in :: "string \<Rightarrow> string \<Rightarrow> bool" where
  "str_in n [] = (n = [])"
| "str_in n (c # cs) = (startswith (c # cs) n \<or> str_in n cs)"

definition endswith :: "string \<Rightarrow> string \<Rightarrow> bool" where
  "endswith s p = startswith (rev s) (rev p)"

definition contains :: "string \<Rightarrow> string \<Rightarrow> bool" where
  "contains hay needle = str_in (norm_spaces needle) (norm_spaces hay)"

text \<open>A needle that is \<open>None\<close> is skipped.\<close>

definition contains_all :: "string \<Rightarrow> string option list \<Rightarrow> bool" where
  "contains_all hay needles =
     (let norm_hay = norm_spaces hay
      in list_all (\<lambda>n. str_in (norm_spaces (the n)) norm_hay) (filter (\<lambda>n. n \<noteq> None) needles))"

definition has_attachment :: "EmailContext \<Rightarrow> bool" where
  "has_attachment ctx = (Attachments ctx \<noteq> [])"

definition attachment_ext_is :: "EmailContext \<Rightarrow> string list \<Rightarrow> bool \<Rightarrow> bool" where
  "attachment_ext_is ctx exts require_all =
     (let files = map (\<lambda>a. lower (filename a)) (Attachments ctx);
          exts' = map (\<lambda>e. dropWhile (\<lambda>c. c = CHR ''.'') (lower e)) exts;
          has_ext = (\<lambda>ext. list_ex (\<lambda>f. endswith f (CHR ''.'' # ext)) files)
      in if require_all then list_all has_ext exts' else list_ex has_ext exts')"

text \<open>\<open>(n or "")\<close>: a needle that is \<open>None\<close> counts as the empty string.\<close>

definition attachment_name_contains :: "EmailContext \<Rightarrow> string option list \<Rightarrow> bool" where
  "attachment_name_contains ctx needles =
     (let files = map (\<lambda>a. lower (filename a)) (Attachments ctx);
          needles' = map (\<lambda>n. lower (case n of None \<Rightarrow> [] | Some s \<Rightarrow> s)) needles
      in list_ex (\<lambda>f. list_ex (\<lambda>n. str_in n f) needles') files)"

text \<open>One entry of the list \<open>categorize\<close> returns; an absent key of the dict is \<open>None\<close>.\<close>

record match =
  name :: string
  handler_module :: string
  handler_function :: string
  stop_after_match :: "bool option"
  pdf_password :: "string option"
  why :: "(string \<times> bool) list"

definition categorize :: "EmailContext \<Rightarrow> match list" where
  "categorize ctx =
     (let subj = Subject ctx; body = Body ctx;
          inward_subject_ok = contains subj ''DISPOSAL REQUIRED FOR FCY INWARD'';
          inward_body_ok = contains_all body
            [Some ''FCYinward.disposal@hdfcbank.com'',
             Some ''promoters@canopusinfosystems.com'',
             Some ''We are in receipt of following inward remittance.'',
             Some ''Kindly provide following disposal instructions'',
             Some ''INW_NO''];
          matches1 =
            (if inward_subject_ok \<and> inward_body_ok then
               [\<lparr>name = ''inward_remmittance_intimation'',
                 handler_module = ''handlers.disposal_handler'',
                 handler_function = ''handle'',
                 stop_after_match = Some True,
                 pdf_password = None,
                 why = [(''subject_contains'', inward_subject_ok),
                        (''body_contains_all'', inward_body_ok)]\<rparr>]
             else []);
          firc_subject_ok = contains subj ''Debit Cum Credit Advice For FCY Inward Remittance'';
          firc_body_ok = contains_all body
            [Some ''Inward.Remittances@hdfcbank.com'',
             Some ''promoters@canopusinfosystems.com'',
             Some ''Please find the attached Debit Cum Credit advice for Inward'',
             Some ''For any queries,Please write to us at firchelpdesk@hdfcbank.com''];
          firc_attach_ok = (has_attachment ctx \<and> attachment_ext_is ctx [''pdf''] False);
          matches2 =
            (if firc_subject_ok \<and> firc_body_ok \<and> firc_attach_ok then
               [\<lparr>name = ''FIRC'',
                 handler_module = ''handlers.firc_handler'',
                 handler_function = ''handle'',
                 stop_after_match = Some True,
                 pdf_password = None,
                 why = [(''subject_contains'', firc_subject_ok),
                        (''body_contains_all'', firc_body_ok),
                        (''has_pdf_attachment'', firc_attach_ok)]\<rparr>]
             else []);
          yes_subject_ok = contains subj ''Miscellaneous_Advices - INWARD REMITTANCE - YBL REF NO'';
          yes_body_ok = contains_all body
            [Some ''yestouch@yesbank.in'',
             Some ''We attach herewith the transaction advice for trade transaction reference''];
          yes_attach_ok = (has_attachment ctx \<and> attachment_ext_is ctx [''pdf''] False
                           \<and> attachment_name_contains ctx [Some ''firc'']);
          matches3 =
            (if yes_subject_ok \<and> yes_body_ok \<and> yes_attach_ok then
               [\<lparr>name = ''FIRC'',
                 handler_module = ''handlers.firc_handler'',
                 handler_function = ''handle'',
                 stop_after_match = Some True,
                 pdf_password = Some ''21893044'',
                 why = [(''subject_contains'', yes_subject_ok),
                        (''body_contains_all'', yes_body_ok),
                        (''has_pdf_attachment'', yes_attach_ok)]\<rparr>]
             else [])
      in matches1 @ matches2 @ matches3)"

section \<open>runner.py: dispatch and the poll loop\<close>

text \<open>
  What \<open>fn(msg, ctx)\<close> of the imported handler does, as far as the runner can see:
  it returns, or it (or the import, or \<open>getattr\<close>) raises an \<open>Exception\<close>.
\<close>

datatype outcome = Returned | Raised string

type_synonym handlers = "string \<Rightarrow> string \<Rightarrow> gmsg \<Rightarrow> match \<Rightarrow> outcome"

text \<open>The observable steps of the loop: its log lines and the handler calls.\<close>

datatype event =
    LogNewMessage string int
  | LogNoRule
  | Called string string string
  | LogHandlerError string string string
  | LogStop

text \<open>\<open>call_handler\<close>: the \<open>try\<close>/\<open>except Exception\<close> logs the error and returns.\<close>

definition call_handler :: "handlers \<Rightarrow> string \<Rightarrow> string \<Rightarrow> gmsg \<Rightarrow> match \<Rightarrow> event list" where
  "call_handler hs handler_mod handler_fun msg m =
     (case hs handler_mod handler_fun msg m of
        Returned \<Rightarrow> [Called handler_mod handler_fun (msg_id msg)]
      | Raised e \<Rightarrow> [Called handler_mod handler_fun (msg_id msg),
                     LogHandlerError handler_mod handler_fun e])"

text \<open>\<open>m.get("stop_after_match", True)\<close>\<close>

definition stops :: "match \<Rightarrow> bool" where
  "stops m = (case stop_after_match m of None \<Rightarrow> True | Some b \<Rightarrow> b)"

text \<open>The \<open>for m in matches\<close> loop with its \<open>break\<close>.\<close>

fun dispatch :: "handlers \<Rightarrow> gmsg \<Rightarrow> match list \<Rightarrow> event list" where
  "dispatch hs msg [] = []"
| "dispatch hs msg (m # ms) =
     call_handler hs (handler_module m) (handler_function m) msg m
     @ (if stops m then [LogStop] else dispatch hs msg ms)"

record runner_state =
  last_ts :: int
  processed :: "string set"
  trace :: "event list"

definition email_ctx_of :: "gmsg \<Rightarrow> EmailContext" where
  "email_ctx_of msg =
     \<lparr>ctx_id = msg_id msg, internal_ts = its_of msg,
      From_' = header_value (headers msg) ''From'', ToCcBcc = get_recipients msg,
      Subject = header_value (headers msg) ''Subject'', Date = header_value (headers msg) ''Date'',
      Body = body_text msg, Attachments = attachments msg\<rparr>"

text \<open>The body of \<open>for msg in messages\<close>.\<close>

definition process_message :: "handlers \<Rightarrow> runner_state \<Rightarrow> gmsg \<Rightarrow> runner_state" where
  "process_message hs st msg =
     (let mid = msg_id msg; its = its_of msg
      in if mid \<in> processed st then st
         else
           let matches = categorize (email_ctx_of msg);
               evs = LogNewMessage mid its
                     # (if matches = [] then [LogNoRule] else dispatch hs msg matches)
           in \<lparr>last_ts = (if its > last_ts st then its else last_ts st),
               processed = insert mid (processed st),
               trace = trace st @ evs\<rparr>)"

definition process_batch :: "handlers \<Rightarrow> runner_state \<Rightarrow> gmsg list \<Rightarrow> runner_state" where
  "process_batch hs st msgs = foldl (process_message hs) st msgs"

text \<open>One iteration of \<open>while True\<close>: poll from the watermark, then the batch.\<close>

definition poll_cycle :: "handlers \<Rightarrow> gmail \<Rightarrow> runner_state \<Rightarrow> runner_state" where
  "poll_cycle hs g st = process_batch hs st (list_new_messages g (last_ts st))"

text \<open>The timestamps of the messages the loop took up, read off the log.\<close>

fun logged_ts :: "event list \<Rightarrow> int list" where
  "logged_ts [] = []"
| "logged_ts (LogNewMessage mid its # es) = its # logged_ts es"
| "logged_ts (e # es) = logged_ts es"

fun called :: "event list \<Rightarrow> (string \<times> string \<times> string) list" where
  "called [] = []"
| "called (Called hm hf mid # es) = (hm, hf, mid) # called es"
| "called (e # es) = called es"

section \<open>The handlers' store: a pandas DataFrame\<close>

text \<open>
  A cell holds a string or is missing (\<open>NaN\<close>): \<open>read_df\<close> fills every cell with a string,
  \<open>pd.concat\<close> leaves the cells of a column that a frame lacks missing. The frame is its
  column labels and its rows, each row aligned with the labels.
\<close>

datatype cell = Str string | NaN

record dataframe =
  df_columns :: "string list"
  df_rows :: "cell list list"

definition wf_df :: "dataframe \<Rightarrow> bool" where
  "wf_df df = (distinct (df_columns df)
               \<and> list_all (\<lambda>r. length r = length (df_columns df)) (df_rows df))"

text \<open>\<open>str(x)\<close> of a cell, as in \<open>astype(str)\<close> and \<open>str(df.at[idx, k])\<close>.\<close>

definition cell_str :: "cell \<Rightarrow> string" where
  "cell_str c = (case c of Str s \<Rightarrow> s | NaN \<Rightarrow> ''nan'')"

fun first_index :: "('a \<Rightarrow> bool) \<Rightarrow> 'a list \<Rightarrow> nat option" where
  "first_index p [] = None"
| "first_index p (x # xs) =
     (if p x then Some 0 else map_option Suc (first_index p xs))"

definition col_index :: "dataframe \<Rightarrow> string \<Rightarrow> nat option" where
  "col_index df c = first_index (\<lambda>k. k = c) (df_columns df)"

text \<open>The cell of row \<open>i\<close> in column \<open>c\<close>, if the frame has both.\<close>

definition cell_at :: "dataframe \<Rightarrow> nat \<Rightarrow> string \<Rightarrow> cell option" where
  "cell_at df i c =
     (if i < length (df_rows df)
      then map_option (\<lambda>j. df_rows df ! i ! j) (col_index df c)
      else None)"

text \<open>\<open>ensure_cols\<close>: \<open>df[c] = ""\<close> for every label the frame lacks.\<close>

fun ensure_cols :: "dataframe \<Rightarrow> string list \<Rightarrow> dataframe" where
  "ensure_cols df [] = df"
| "ensure_cols df (c # cs) =
     ensure_cols
       (if c \<in> set (df_columns df) then df
        else \<lparr>df_columns = df_columns df @ [c],
              df_rows = map (\<lambda>r. r @ [Str '''']) (df_rows df)\<rparr>) cs"

text \<open>
  \<open>pd.concat([df, pd.DataFrame([row])], ignore_index=True)\<close>: the labels of \<open>df\<close>, then
  the labels only the new row has; a cell that one side lacks is missing.
\<close>

definition concat_row :: "dataframe \<Rightarrow> (string \<times> string) list \<Rightarrow> dataframe" where
  "concat_row df row =
     (let new_cols = filter (\<lambda>k. k \<notin> set (df_columns df)) (map fst row);
          cols = df_columns df @ new_cols
      in \<lparr>df_columns = cols,
          df_rows = map (\<lambda>r. r @ replicate (length new_cols) NaN) (df_rows df)
                    @ [map (\<lambda>c. case map_of row c of None \<Rightarrow> NaN | Some v \<Rightarrow> Str v) cols]\<rparr>)"

text \<open>\<open>df.at[idx, k] = v\<close>; a label the frame lacks is added, missing in the other rows.\<close>

definition write_cell :: "dataframe \<Rightarrow> nat \<Rightarrow> string \<Rightarrow> string \<Rightarrow> dataframe" where
  "write_cell df idx k v =
     (case col_index df k of
        Some j \<Rightarrow> df\<lparr>df_rows := (df_rows df)[idx := (df_rows df ! idx)[j := Str v]]\<rparr>
      | None \<Rightarrow>
          \<lparr>df_columns = df_columns df @ [k],
           df_rows = (map (\<lambda>r. r @ [NaN]) (df_rows df))[idx := (df_rows df ! idx) @ [Str v]]\<rparr>)"

text \<open>The body of \<open>for k, v in updates.items()\<close>: write only when the string differs.\<close>

definition update_step :: "nat \<Rightarrow> dataframe \<Rightarrow> string \<times> string \<Rightarrow> dataframe" where
  "update_step idx df kv =
     (let k = fst kv; v = snd kv;
          old = (case col_index df k of
                   Some j \<Rightarrow> cell_str (df_rows df ! idx ! j)
                 | None \<Rightarrow> '''')
      in if old \<noteq> v then write_cell df idx k v else df)"

text \<open>\<open>mask = df[pk_col].astype(str) == pk\<close> and \<open>df[mask].index[0]\<close>, if \<open>mask.any()\<close>.\<close>

definition find_row :: "dataframe \<Rightarrow> string \<Rightarrow> string \<Rightarrow> nat option" where
  "find_row df pk_col pk =
     (case col_index df pk_col of
        None \<Rightarrow> None
      | Some j \<Rightarrow> first_index (\<lambda>r. cell_str (r ! j) = pk) (df_rows df))"

text \<open>\<open>"" if v is None else str(v)\<close>; a payload value is \<open>None\<close> or has the string \<open>s\<close>.\<close>

definition str_or_empty :: "string option \<Rightarrow> string" where
  "str_or_empty v = (case v of None \<Rightarrow> '''' | Some s \<Rightarrow> s)"

text \<open>
  \<open>list(set(xs))\<close>: the distinct elements of \<open>xs\<close>. CPython lists them in hash order;
  the model lists each at its last occurrence.
\<close>

definition list_set :: "string list \<Rightarrow> string list" where
  "list_set xs = remdups xs"

text \<open>\<open>updates.get(pk_col, "")\<close>\<close>

definition pk_of :: "(string \<times> string) list \<Rightarrow> string \<Rightarrow> string" where
  "pk_of safe pk_col = (case map_of safe pk_col of None \<Rightarrow> '''' | Some v \<Rightarrow> v)"

text \<open>The merge of both handlers, after the payload is sanitized and the columns ensured.\<close>

definition upsert_rows :: "dataframe \<Rightarrow> string \<Rightarrow> (string \<times> string) list \<Rightarrow> dataframe" where
  "upsert_rows df pk_col safe =
     (let pk = pk_of safe pk_col
      in if pk = [] then concat_row df safe
         else (case find_row df pk_col pk of
                 Some idx \<Rightarrow> foldl (update_step idx) df safe
               | None \<Rightarrow> concat_row df safe))"

subsection \<open>disposal\_handler.py\<close>

definition safe_updates :: "(string \<times> string option) list \<Rightarrow> string list \<Rightarrow> (string \<times> string) list" where
  "safe_updates updates allowed_cols =
     map (\<lambda>(k, v). (k, str_or_empty v)) (filter (\<lambda>(k, v). k \<in> set allowed_cols) updates)"

definition upsert_selected ::
  "dataframe \<Rightarrow> string \<Rightarrow> (string \<times> string option) list \<Rightarrow> string list \<Rightarrow> dataframe" where
  "upsert_selected df pk_col updates allowed_cols =
     (let safe = safe_updates updates allowed_cols;
          df' = ensure_cols df (list_set (allowed_cols @ [pk_col]))
      in upsert_rows df' pk_col safe)"

definition FINANCIAL_CANON :: "string list" where
  "FINANCIAL_CANON =
     [''RemitterName'', ''RemitterReference'', ''BeneficiaryName'', ''BeneficiaryAccount'',
      ''InwardReference'', ''CurrencyCode'', ''AmountFCY'', ''AmountINR'', ''ExchangeRate'',
      ''ValueDate'', ''CreditDate'', ''RemittingBankName'', ''RemittingBankSWIFT'',
      ''PurposeCode'', ''PurposeDescription'']"

definition ALLOWED_TO_UPDATE :: "string list" where
  "ALLOWED_TO_UPDATE =
     list_set (FINANCIAL_CANON
       @ [''RemitterPK'', ''InwardPK'', ''EMAIL_Type'', ''EmailSubject'', ''EmailFrom'', ''EmailDate''])"

subsection \<open>firc\_handler.py\<close>

definition upsert_by_inward :: "dataframe \<Rightarrow> (string \<times> string option) list \<Rightarrow> dataframe" where
  "upsert_by_inward df updates =
     (let updates' = map (\<lambda>(k, v). (k, str_or_empty v)) updates;
          df' = ensure_cols df (map fst updates' @ [''InwardPK''])
      in upsert_rows df' ''InwardPK'' updates')"

definition FIRC_CANON :: "string list" where
  "FIRC_CANON =
     [''InwardReference'', ''FIRCNumber'', ''IssueDate'',
      ''BeneficiaryName'', ''BeneficiaryAccount'',
      ''RemitterName'', ''RemitterReference'', ''RemittingBankName'', ''RemittingBankSWIFT'',
      ''CurrencyCode'', ''AmountFCY'', ''AmountINR'', ''ExchangeRate'', ''ValueDate'', ''CreditDate'',
      ''GSTInvoiceNumber'', ''CustomerGSTIN'', ''BankGSTIN'',
      ''IGSTRatePercent'', ''IGSTAmount'', ''CGSTRatePercent'', ''CGSTAmount'',
      ''SGSTRatePercent'', ''SGSTAmount'', ''UTGSTRatePercent'', ''UTGSTAmount'',
      ''CessRatePercent'', ''CessAmount'', ''GrandTotal'',
      ''PurposeCode'', ''PurposeDescription'']"

section \<open>The extraction call and its retries\<close>




text \<open>Python's truth value of \<open>os.environ.get(name)\<close>: set and not empty.\<close>

definition truthy :: "string option \<Rightarrow> bool" where
  "truthy v = (v \<noteq> None \<and> v \<noteq> Some [])"









section \<open>firc\_handler.py: password candidates\<close>

text \<open>
  \<open>passwords.json\<close>, as far as the code reads it. A map that is not an object makes
  \<open>.items()\<close> raise; a value that is not a list is skipped. A file that cannot be read or
  parsed, or whose top level is not an object, raises before anything is added.
\<close>

type_synonym pw_map = "(string \<times> string list option) list"

record pw_json =
  domains :: "pw_map option"
  senders :: "pw_map option"
  subjects :: "pw_map option"

datatype pw_file = NoFile | BadFile | PwFile pw_json

text \<open>The values of the entries whose key, lowercased, occurs in \<open>hay\<close>.\<close>

definition pw_hits :: "pw_map \<Rightarrow> string \<Rightarrow> string list" where
  "pw_hits m hay =
     concat (map (\<lambda>(k, vals). if str_in (lower k) hay
                                then (case vals of Some vs \<Rightarrow> vs | None \<Rightarrow> [])
                                else []) m)"

text \<open>
  The \<open>try\<close> block over the file: the sender map, then the domain map, then the subject
  map; an exception ends the block and keeps what was added.
\<close>

definition lookup_passwords :: "pw_file \<Rightarrow> string \<Rightarrow> string \<Rightarrow> string list" where
  "lookup_passwords file sender subject =
     (case file of
        NoFile \<Rightarrow> []
      | BadFile \<Rightarrow> []
      | PwFile j \<Rightarrow>
          (case senders j of
             None \<Rightarrow> []
           | Some sm \<Rightarrow>
               pw_hits sm (lower sender)
               @ (case domains j of
                    None \<Rightarrow> []
                  | Some dm \<Rightarrow>
                      pw_hits dm (lower sender)
                      @ (case subjects j of
                           None \<Rightarrow> []
                         | Some um \<Rightarrow> pw_hits um (lower subject)))))"

text \<open>
  \<open>re.findall(r'(?:password|pwd)\s*[:\-]\s*([A-Za-z0-9@#_\-\.]+)', body, flags=re.I)\<close>:
  one match at the head of the text gives the group and the text after the match.
\<close>

definition is_pw_char :: "char \<Rightarrow> bool" where
  "is_pw_char c =
     (c \<in> set ''ABCDEFGHIJKLMNOPQRSTUVWXYZabcdefghijklmnopqrstuvwxyz0123456789@#_-.'')"

definition after_keyword :: "string \<Rightarrow> string option" where
  "after_keyword s =
     (if startswith (lower s) ''password'' then Some (drop 8 s)
      else if startswith (lower s) ''pwd'' then Some (drop 3 s)
      else None)"

definition match_tail :: "string \<Rightarrow> (string \<times> string) option" where
  "match_tail r =
     (case dropWhile is_space r of
        [] \<Rightarrow> None
      | c # r' \<Rightarrow>
          if c = CHR '':'' \<or> c = CHR ''-'' then
            (let r'' = dropWhile is_space r';
                 g = takeWhile is_pw_char r''
             in if g = [] then None else Some (g, dropWhile is_pw_char r''))
          else None)"

definition match_hint :: "string \<Rightarrow> (string \<times> string) option" where
  "match_hint s = (case after_keyword s of None \<Rightarrow> None | Some r \<Rightarrow> match_tail r)"

text \<open>The scan of \<open>findall\<close>: after a match it goes on behind the match, else one character on.\<close>

function findall_hints :: "string \<Rightarrow> string list" where
  "findall_hints [] = []"
| "findall_hints (c # cs) =
     (case match_hint (c # cs) of
        Some (g, rest) \<Rightarrow> g # findall_hints rest
      | None \<Rightarrow> findall_hints cs)"
  by pat_completeness auto
termination
proof (relation "measure length")
  show "wf (measure length)" by simp
next
  fix c cs
  show "(cs, c # cs) \<in> measure length" by simp
next
  fix c :: char and cs x2 g rest
  assume m: "match_hint (c # cs) = Some x2" and x: "(g, rest) = x2"
  from m x obtain r where r: "after_keyword (c # cs) = Some r" and t: "match_tail r = Some (g, rest)"
    by (auto simp: match_hint_def split: option.splits)
  have "length r \<le> length (c # cs)"
    using r by (auto simp: after_keyword_def split: if_splits)
  moreover have "length rest < length r"
  proof -
    from t obtain d r' where d: "dropWhile is_space r = d # r'"
        and rest: "rest = dropWhile is_pw_char (dropWhile is_space r')"
      by (auto simp: match_tail_def Let_def split: list.splits if_splits)
    have "length rest \<le> length (dropWhile is_space r')"
      unfolding rest by (rule length_dropWhile_le)
    also have "\<dots> \<le> length r'" by (rule length_dropWhile_le)
    also have "\<dots> < length (dropWhile is_space r)" using d by simp
    also have "\<dots> \<le> length r" by (rule length_dropWhile_le)
    finally show ?thesis .
  qed
  ultimately show "(rest, c # cs) \<in> measure length" by simp
qed

text \<open>The \<open>seen\<close> loop: keep an entry unless it was seen before.\<close>

fun dedup_seen :: "string set \<Rightarrow> string list \<Rightarrow> string list" where
  "dedup_seen seen [] = []"
| "dedup_seen seen (p # ps) =
     (if p \<in> seen then dedup_seen seen ps else p # dedup_seen (insert p seen) ps)"

definition env_global :: "(string \<Rightarrow> string option) \<Rightarrow> string list" where
  "env_global env = (if truthy (env ''PDF_PASSWORD'') then [strip (the (env ''PDF_PASSWORD''))] else [])"

definition env_banks :: "(string \<Rightarrow> string option) \<Rightarrow> string list" where
  "env_banks env =
     concat (map (\<lambda>bank_env. if truthy (env bank_env) then [strip (the (env bank_env))] else [])
       [''YESBANK_PDF_PASSWORD'', ''HDFCBANK_PDF_PASSWORD'', ''ICICI_PDF_PASSWORD''])"

definition env_multi :: "(string \<Rightarrow> string option) \<Rightarrow> string list" where
  "env_multi env =
     (let multi = (case env ''PDF_PASSWORDS'' of None \<Rightarrow> [] | Some v \<Rightarrow> v)
      in if multi \<noteq> []
         then filter (\<lambda>p. p \<noteq> []) (map strip (split_on (\<lambda>c. c = CHR '','') multi))
         else [])"

definition body_hints :: "string \<Rightarrow> string list" where
  "body_hints email_body = filter (\<lambda>h. h \<noteq> []) (map strip (findall_hints email_body))"

definition gather_candidate_passwords ::
  "(string \<Rightarrow> string option) \<Rightarrow> pw_file \<Rightarrow> string \<Rightarrow> string \<Rightarrow> string \<Rightarrow> string list" where
  "gather_candidate_passwords env file email_body sender subject =
     (let cands = env_global env @ env_banks env @ env_multi env
                  @ lookup_passwords file sender subject
                  @ body_hints email_body
      in dedup_seen {} cands)"

text \<open>
  The candidates \<open>handle\<close> assembles for an encrypted attachment: the rule's
  \<open>pdf_password\<close>, if any, before the gathered ones, deduplicated again.
\<close>

definition handle_candidates ::
  "match \<Rightarrow> (string \<Rightarrow> string option) \<Rightarrow> pw_file \<Rightarrow> string \<Rightarrow> string \<Rightarrow> string \<Rightarrow> string list" where
  "handle_candidates m env file email_body sender subject =
     (let direct_pw = pdf_password m;
          candidates = (if truthy direct_pw then [the direct_pw] else [])
                       @ gather_candidate_passwords env file email_body sender subject
      in dedup_seen {} candidates)"

section \<open>Texts that differ only in case or in their whitespace runs\<close>

text \<open>
  The same collapse as \<open>collapse_ws\<close>, in one pass: the flag says that the character
  before was whitespace.
\<close>

fun collapse_from :: "bool \<Rightarrow> string \<Rightarrow> string" where
  "collapse_from f [] = []"
| "collapse_from f (c # cs) =
     (if is_space c then (if f then collapse_from True cs else CHR '' '' # collapse_from True cs)
      else c # collapse_from False cs)"

text \<open>
  Two texts are the same up to case and whitespace runs: letters may change case, a
  whitespace character may become another one (a line break for a space), and a run of
  whitespace may grow or shrink by one character, any number of times.
\<close>

inductive same_text :: "string \<Rightarrow> string \<Rightarrow> bool" where
  st_same: "same_text s s"
| st_case: "lower s = lower s' \<Longrightarrow> same_text s s'"
| st_run: "is_space w \<Longrightarrow> is_space w' \<Longrightarrow> same_text (a @ w # b) (a @ w # w' # b)"
| st_space: "is_space w \<Longrightarrow> is_space w' \<Longrightarrow> same_text (a @ w # b) (a @ w' # b)"
| st_sym: "same_text s s' \<Longrightarrow> same_text s' s"
| st_trans: "same_text s s' \<Longrightarrow> same_text s' s'' \<Longrightarrow> same_text s s''"

section \<open>Concrete inputs\<close>

definition mk_msg :: "string \<Rightarrow> int \<Rightarrow> gmsg" where
  "mk_msg i t = \<lparr>msg_id = i, internalDate = Some t, headers = [], body_text = [], attachments = []\<rparr>"

definition demo_gmail :: gmail where
  "demo_gmail =
     \<lparr>list_q = (\<lambda>s. Resp [''m3'', ''m1''] (Some (Resp [''m2''] None))),
      get_full = (\<lambda>i. if i = ''m1'' then mk_msg i 1200
                       else if i = ''m2'' then mk_msg i 1700 else mk_msg i 1900)\<rparr>"

text \<open>An advice mail that satisfies the second and the third rule at once.\<close>

definition advice_msg :: gmsg where
  "advice_msg =
     \<lparr>msg_id = ''a1'', internalDate = Some 2000,
      headers = [(''From'', ''bank''),
                 (''subject'', ''Debit cum Credit Advice for FCY  Inward Remittance / Miscellaneous_Advices - INWARD REMITTANCE - YBL REF NO 7'')],
      body_text = ''Inward.Remittances@hdfcbank.com promoters@canopusinfosystems.com Please find the attached Debit Cum Credit advice for Inward. For any queries,Please write to us at firchelpdesk@hdfcbank.com yestouch@yesbank.in We attach herewith the transaction advice for trade transaction reference'',
      attachments = [\<lparr>att_id = ''x'', filename = ''FIRC_7.PDF'', mimeType = ''application/pdf''\<rparr>]\<rparr>"

definition failing_handlers :: handlers where
  "failing_handlers = (\<lambda>hm hf msg m. Raised ''boom'')"



definition df0 :: dataframe where
  "df0 = \<lparr>df_columns = [''InwardPK'', ''RemitterName'', ''Remarks''],
          df_rows = [[Str ''R1'', Str ''Alice'', Str ''keep'']]\<rparr>"

definition payload_keyed :: "(string \<times> string option) list" where
  "payload_keyed =
     [(''InwardPK'', Some ''R1''), (''Remarks'', Some ''x''), (''RemitterName'', Some ''Bob'')]"

definition payload_unkeyed :: "(string \<times> string option) list" where
  "payload_unkeyed = [(''InwardPK'', None), (''RemitterName'', Some ''Bob'')]"

definition allowed_demo :: "string list" where
  "allowed_demo = [''InwardPK'', ''RemitterName'']"



definition demo_env :: "string \<Rightarrow> string option" where
  "demo_env n =
     (if n = ''PDF_PASSWORD'' then Some '' 21893044 ''
      else if n = ''PDF_PASSWORDS'' then Some ''a,b , a''
      else None)"

definition demo_pw_file :: pw_file where
  "demo_pw_file =
     PwFile \<lparr>domains = Some [(''yesbank.in'', Some [''z'', ''d''])],
             senders = Some [(''YesTouch'', Some [''b'', ''z''])],
             subjects = Some [(''advice'', None)]\<rparr>"

definition demo_match :: match where
  "demo_match =
     \<lparr>name = ''FIRC'', handler_module = ''handlers.firc_handler'', handler_function = ''handle'',
      stop_after_match = Some True, pdf_password = Some ''21893044'', why = []\<rparr>"

definition ctx_with_file :: "string \<Rightarrow> EmailContext" where
  "ctx_with_file fn =
     \<lparr>ctx_id = ''c1'', internal_ts = 1, From_' = ''bank'', ToCcBcc = [], Subject = ''s'',
      Date = ''d'', Body = ''b'',
      Attachments = [\<lparr>att_id = ''x'', filename = fn, mimeType = ''application/pdf''\<rparr>]\<rparr>"

section \<open>The poll\<close>

text \<open>
  C1. For every watermark \<open>w\<close> and every answer of the mail service, the poll returns only
  messages whose internal timestamp is strictly greater than \<open>w\<close>, whatever the coarse
  \<open>after:\<close> filter let through, and the returned list is ascending in the timestamp.
\<close>

theorem poll_strictly_after_sorted:
  "(\<forall>m \<in> set (list_new_messages g w). w < its_of m)
   \<and> sorted (map its_of (list_new_messages g w))"
  by (simp add: list_new_messages_def Let_def)

theorem poll_strictly_after_sorted_witness:
  "list_new_messages demo_gmail 1500 = [mk_msg ''m2'' 1700, mk_msg ''m3'' 1900]
   \<and> list_all (\<lambda>m. 1500 < its_of m) (list_new_messages demo_gmail 1500)
   \<and> sorted (map its_of (list_new_messages demo_gmail 1500))"
  using poll_strictly_after_sorted [of demo_gmail 1500]
  by (simp add: list_new_messages_def demo_gmail_def mk_msg_def its_of_def)

section \<open>The batch loop\<close>

lemma logged_ts_append: "logged_ts (a @ b) = logged_ts a @ logged_ts b"
  by (induction a rule: logged_ts.induct) simp_all

lemma logged_ts_call_handler: "logged_ts (call_handler hs hm hf msg m) = []"
  by (simp add: call_handler_def split: outcome.splits)

lemma logged_ts_dispatch: "logged_ts (dispatch hs msg ms) = []"
  by (induction ms) (simp_all add: logged_ts_append logged_ts_call_handler)

lemma process_message_trace:
  "trace (process_message hs st m)
     = trace st @ drop (length (trace st)) (trace (process_message hs st m))"
  by (simp add: process_message_def Let_def)

lemma process_message_logged:
  "logged_ts (drop (length (trace st)) (trace (process_message hs st m)))
     = (if msg_id m \<in> processed st then [] else [its_of m])"
  by (simp add: process_message_def Let_def logged_ts_dispatch)

lemma process_message_last_ts:
  "last_ts (process_message hs st m)
     = (if msg_id m \<in> processed st then last_ts st else max (last_ts st) (its_of m))"
  by (simp add: process_message_def Let_def max_def)


lemma process_batch_Cons:
  "process_batch hs st (m # msgs) = process_batch hs (process_message hs st m) msgs"
  by (simp add: process_batch_def)

lemma process_batch_trace:
  "\<exists>evs. trace (process_batch hs st msgs) = trace st @ evs"
proof (induction msgs arbitrary: st)
  case Nil
  then show ?case by (simp add: process_batch_def)
next
  case (Cons m msgs)
  obtain evs where e: "trace (process_batch hs (process_message hs st m) msgs)
                         = trace (process_message hs st m) @ evs"
    using Cons.IH by blast
  have "trace (process_message hs st m)
          = trace st @ drop (length (trace st)) (trace (process_message hs st m))"
    by (rule process_message_trace)
  with e show ?case by (simp add: process_batch_def) (metis append.assoc)
qed

lemma Max_insert_max:
  "Max (insert (max a b) (set xs)) = Max (insert a (insert b (set xs)))"
proof (cases "xs = []")
  case True
  then show ?thesis by simp
next
  case False
  then have ne: "set xs \<noteq> {}" by simp
  have "Max (insert (max a b) (set xs)) = max (max a b) (Max (set xs))"
    using ne by (simp add: Max_insert)
  moreover have "Max (insert a (insert b (set xs))) = max a (max b (Max (set xs)))"
    using ne by (simp add: Max_insert)
  ultimately show ?thesis by (simp add: max.assoc)
qed

lemma batch_watermark:
  "last_ts (process_batch hs st msgs)
     = Max (insert (last_ts st)
         (set (logged_ts (drop (length (trace st)) (trace (process_batch hs st msgs))))))"
proof (induction msgs arbitrary: st)
  case Nil
  then show ?case by (simp add: process_batch_def)
next
  case (Cons m msgs)
  let ?st1 = "process_message hs st m"
  let ?st2 = "process_batch hs ?st1 msgs"
  obtain e1 where e1: "trace ?st1 = trace st @ e1"
    using process_message_trace by blast
  obtain e2 where e2: "trace ?st2 = trace ?st1 @ e2"
    using process_batch_trace by blast
  have l1: "logged_ts e1 = (if msg_id m \<in> processed st then [] else [its_of m])"
    using process_message_logged [of st hs m] e1 by simp
  have ih: "last_ts ?st2 = Max (insert (last_ts ?st1) (set (logged_ts e2)))"
    using Cons.IH [of ?st1] e2 by simp
  have tr: "drop (length (trace st)) (trace ?st2) = e1 @ e2"
    using e1 e2 by simp
  show ?case
  proof (cases "msg_id m \<in> processed st")
    case True
    then show ?thesis
      using ih l1 tr by (simp add: process_batch_Cons process_message_last_ts logged_ts_append)
  next
    case False
    have "Max (insert (max (last_ts st) (its_of m)) (set (logged_ts e2)))
            = Max (insert (last_ts st) (insert (its_of m) (set (logged_ts e2))))"
      by (rule Max_insert_max)
    then show ?thesis
      using False ih l1 tr
      by (simp add: process_batch_Cons process_message_last_ts logged_ts_append)
  qed
qed

lemma batch_watermark_mono: "last_ts st \<le> last_ts (process_batch hs st msgs)"
proof (induction msgs arbitrary: st)
  case Nil
  then show ?case by (simp add: process_batch_def)
next
  case (Cons m msgs)
  have "last_ts st \<le> last_ts (process_message hs st m)"
    by (simp add: process_message_last_ts)
  also have "\<dots> \<le> last_ts (process_batch hs (process_message hs st m) msgs)"
    by (rule Cons.IH)
  finally show ?case by (simp add: process_batch_Cons)
qed



text \<open>
  C6. The watermark never decreases, and after a batch it is the maximum of the old
  watermark and the internal timestamps of the messages the loop actually took up in that
  batch (those it logged as new; a message whose id is already in the processed set is
  skipped and does not count). The poll time does not enter.
\<close>

theorem watermark_is_max_processed:
  "last_ts (process_batch hs st msgs)
     = Max (insert (last_ts st)
         (set (logged_ts (drop (length (trace st)) (trace (process_batch hs st msgs))))))
   \<and> last_ts st \<le> last_ts (process_batch hs st msgs)
   \<and> last_ts st \<le> last_ts (poll_cycle hs g st)"
  using batch_watermark [of hs st msgs] batch_watermark_mono [of st hs msgs]
    batch_watermark_mono [of st hs "list_new_messages g (last_ts st)"]
  by (simp add: poll_cycle_def)

section \<open>Dispatch\<close>

lemma called_append: "called (a @ b) = called a @ called b"
  by (induction a rule: called.induct) simp_all

lemma called_call_handler: "called (call_handler hs hm hf msg m) = [(hm, hf, msg_id msg)]"
  by (simp add: call_handler_def split: outcome.splits)





lemma advice_matches:
  "categorize (email_ctx_of advice_msg) =
   [\<lparr>name = ''FIRC'', handler_module = ''handlers.firc_handler'',
     handler_function = ''handle'', stop_after_match = Some True,
     pdf_password = None,
     why = [(''subject_contains'', True), (''body_contains_all'', True),
        (''has_pdf_attachment'', True)]\<rparr>,
    \<lparr>name = ''FIRC'', handler_module = ''handlers.firc_handler'',
     handler_function = ''handle'', stop_after_match = Some True,
     pdf_password = Some ''21893044'',
     why = [(''subject_contains'', True), (''body_contains_all'', True),
        (''has_pdf_attachment'', True)]\<rparr>]"
  by code_simp



lemma demo_fields:
  "msg_id (mk_msg i t) = i" "its_of (mk_msg i t) = t"
  "msg_id advice_msg = ''a1''" "its_of advice_msg = 2000"
  by (simp_all add: mk_msg_def advice_msg_def its_of_def)



text \<open>
  C9. Every match that \<open>categorize\<close> produces has \<open>stop_after_match\<close> set to true, so
  for every message the dispatch loop calls at most one handler: the one of the first match
  in the classifier's order.
\<close>

theorem one_handler_per_message:
  "(\<forall>m \<in> set (categorize ctx). stop_after_match m = Some True)
   \<and> length (called (dispatch hs msg (categorize ctx))) \<le> 1
   \<and> called (dispatch hs msg (categorize ctx))
       = (case categorize ctx of [] \<Rightarrow> []
          | m # ms \<Rightarrow> [(handler_module m, handler_function m, msg_id msg)])"
proof -
  have a: "\<forall>m \<in> set (categorize ctx). stop_after_match m = Some True"
    by (auto simp: categorize_def Let_def)
  have b: "called (dispatch hs msg ms)
       = (case ms of [] \<Rightarrow> []
          | m # ms' \<Rightarrow> [(handler_module m, handler_function m, msg_id msg)])"
    if "\<forall>m \<in> set ms. stop_after_match m = Some True" for ms
    using that by (cases ms) (simp_all add: called_append called_call_handler stops_def)
  have c: "called (dispatch hs msg (categorize ctx))
       = (case categorize ctx of [] \<Rightarrow> []
          | m # ms \<Rightarrow> [(handler_module m, handler_function m, msg_id msg)])"
    using a by (rule b)
  have "length (called (dispatch hs msg (categorize ctx))) \<le> 1"
    unfolding c by (simp split: list.splits)
  with a c show ?thesis by blast
qed

theorem one_handler_per_message_witness:
  "length (categorize (email_ctx_of advice_msg)) = 2
   \<and> list_all (\<lambda>m. stop_after_match m = Some True) (categorize (email_ctx_of advice_msg))
   \<and> called (dispatch failing_handlers advice_msg (categorize (email_ctx_of advice_msg)))
       = [(''handlers.firc_handler'', ''handle'', ''a1'')]"
  using one_handler_per_message [of "email_ctx_of advice_msg" failing_handlers advice_msg]
  by (simp add: advice_matches demo_fields)

section \<open>The merge into the store\<close>

lemma first_index_None: "first_index p xs = None \<longleftrightarrow> (\<forall>x \<in> set xs. \<not> p x)"
  by (induction xs) auto

lemma first_index_Some:
  "first_index p xs = Some i \<Longrightarrow> i < length xs \<and> p (xs ! i) \<and> (\<forall>j < i. \<not> p (xs ! j))"
proof (induction xs arbitrary: i)
  case Nil
  then show ?case by simp
next
  case (Cons x xs)
  show ?case
  proof (cases "p x")
    case True
    with Cons.prems show ?thesis by simp
  next
    case False
    with Cons.prems obtain i' where i': "first_index p xs = Some i'" "i = Suc i'"
      by auto
    from Cons.IH [OF i'(1)] False i'(2) show ?thesis
      by (auto simp: nth_Cons split: nat.splits)
  qed
qed

lemma first_index_append:
  "first_index p (xs @ ys)
     = (case first_index p xs of
          Some i \<Rightarrow> Some i
        | None \<Rightarrow> map_option (\<lambda>i. length xs + i) (first_index p ys))"
proof (induction xs)
  case Nil
  show ?case by (cases "first_index p ys") simp_all
next
  case (Cons x xs)
  then show ?case
    by (cases "first_index p ys") (auto split: option.splits)
qed

lemma first_index_cong:
  "length xs = length ys \<Longrightarrow> (\<And>i. i < length xs \<Longrightarrow> p (xs ! i) = q (ys ! i)) \<Longrightarrow>
   first_index p xs = first_index q ys"
proof (induction xs arbitrary: ys)
  case Nil
  then show ?case by simp
next
  case (Cons x xs)
  then obtain y ys' where ys: "ys = y # ys'" by (cases ys) auto
  have h: "p x = q y" using Cons.prems(2) [of 0] ys by simp
  have t: "first_index p xs = first_index q ys'"
  proof (rule Cons.IH)
    show "length xs = length ys'" using Cons.prems(1) ys by simp
    fix i assume "i < length xs"
    then show "p (xs ! i) = q (ys' ! i)" using Cons.prems(2) [of "Suc i"] ys by simp
  qed
  show ?case using h t ys by simp
qed

lemma col_index_None: "col_index df c = None \<longleftrightarrow> c \<notin> set (df_columns df)"
  by (auto simp: col_index_def first_index_None)

lemma col_index_Some:
  "col_index df c = Some j \<Longrightarrow> j < length (df_columns df) \<and> df_columns df ! j = c"
  using first_index_Some [of "\<lambda>k. k = c" "df_columns df" j] by (simp add: col_index_def)

lemma col_index_inj:
  "col_index df c = Some j \<Longrightarrow> col_index df c' = Some j \<Longrightarrow> c = c'"
  using col_index_Some by blast

lemma col_index_ext:
  "c \<in> set (df_columns df) \<Longrightarrow> df_columns df' = df_columns df @ ext \<Longrightarrow>
   col_index df' c = col_index df c"
  by (cases "col_index df c")
     (simp_all add: col_index_None, simp add: col_index_def first_index_append)

lemma wf_df_row_length:
  "wf_df df \<Longrightarrow> i < length (df_rows df) \<Longrightarrow> length (df_rows df ! i) = length (df_columns df)"
  by (simp add: wf_df_def list_all_length)

lemma cell_at_ext:
  assumes "wf_df df" "c \<in> set (df_columns df)" "i < length (df_rows df)"
    and "df_columns df' = df_columns df @ ext" "i < length (df_rows df')"
    and "df_rows df' ! i = df_rows df ! i @ s"
  shows "cell_at df' i c = cell_at df i c"
proof -
  obtain j where j: "col_index df c = Some j"
    using assms(2) col_index_None [of df c] by (cases "col_index df c") auto
  have j': "col_index df' c = Some j"
    using col_index_ext [OF assms(2) assms(4)] j by simp
  have "j < length (df_rows df ! i)"
    using col_index_Some [OF j] wf_df_row_length [OF assms(1) assms(3)] by simp
  then show ?thesis
    using assms(3,5,6) j j' by (simp add: cell_at_def nth_append)
qed

lemma ensure_cols_shape:
  "\<exists>ext. df_columns (ensure_cols df cs) = df_columns df @ ext
       \<and> df_rows (ensure_cols df cs) = map (\<lambda>r. r @ replicate (length ext) (Str '''')) (df_rows df)
       \<and> set ext \<inter> set (df_columns df) = {} \<and> distinct ext"
proof (induction cs arbitrary: df)
  case Nil
  show ?case by (rule exI [of _ "[]"]) simp
next
  case (Cons c cs)
  show ?case
  proof (cases "c \<in> set (df_columns df)")
    case True
    then show ?thesis using Cons.IH [of df] by simp
  next
    case False
    let ?d = "\<lparr>df_columns = df_columns df @ [c], df_rows = map (\<lambda>r. r @ [Str '''']) (df_rows df)\<rparr>"
    obtain ext where e: "df_columns (ensure_cols ?d cs) = df_columns ?d @ ext"
      "df_rows (ensure_cols ?d cs) = map (\<lambda>r. r @ replicate (length ext) (Str '''')) (df_rows ?d)"
      "set ext \<inter> set (df_columns ?d) = {}" "distinct ext"
      using Cons.IH [of ?d] by blast
    have "df_columns (ensure_cols df (c # cs)) = df_columns df @ (c # ext)"
      using False e(1) by simp
    moreover have "df_rows (ensure_cols df (c # cs))
        = map (\<lambda>r. r @ replicate (length (c # ext)) (Str '''')) (df_rows df)"
      using False e(2) by (simp add: comp_def)
    moreover have "set (c # ext) \<inter> set (df_columns df) = {}" "distinct (c # ext)"
      using False e(3,4) by auto
    ultimately show ?thesis by blast
  qed
qed

lemma ensure_cols_length: "length (df_rows (ensure_cols df cs)) = length (df_rows df)"
  using ensure_cols_shape [of df cs] by auto

lemma ensure_cols_columns_set:
  "set (df_columns (ensure_cols df cs)) = set (df_columns df) \<union> set cs"
  by (induction cs arbitrary: df) auto

lemma ensure_cols_id: "set cs \<subseteq> set (df_columns df) \<Longrightarrow> ensure_cols df cs = df"
  by (induction cs) auto

lemma wf_ensure_cols: "wf_df df \<Longrightarrow> wf_df (ensure_cols df cs)"
proof -
  assume w: "wf_df df"
  obtain ext where e: "df_columns (ensure_cols df cs) = df_columns df @ ext"
      "df_rows (ensure_cols df cs) = map (\<lambda>r. r @ replicate (length ext) (Str '''')) (df_rows df)"
      "set ext \<inter> set (df_columns df) = {}" "distinct ext"
    using ensure_cols_shape [of df cs] by blast
  show ?thesis
    using w e by (auto simp: wf_df_def list_all_iff)
qed

lemma cell_at_ensure_cols:
  assumes "wf_df df" "c \<in> set (df_columns df)" "i < length (df_rows df)"
  shows "cell_at (ensure_cols df cs) i c = cell_at df i c"
proof -
  obtain ext where e: "df_columns (ensure_cols df cs) = df_columns df @ ext"
      "df_rows (ensure_cols df cs) = map (\<lambda>r. r @ replicate (length ext) (Str '''')) (df_rows df)"
    using ensure_cols_shape [of df cs] by blast
  show ?thesis
    by (rule cell_at_ext [OF assms e(1)]) (simp_all add: e(2) assms(3))
qed

lemma concat_row_length: "length (df_rows (concat_row df row)) = Suc (length (df_rows df))"
  by (simp add: concat_row_def Let_def)

lemma cell_at_concat_row:
  assumes "wf_df df" "c \<in> set (df_columns df)" "i < length (df_rows df)"
  shows "cell_at (concat_row df row) i c = cell_at df i c"
  by (rule cell_at_ext [OF assms, where ext = "filter (\<lambda>k. k \<notin> set (df_columns df)) (map fst row)"])
     (use assms(3) in \<open>simp_all add: concat_row_def Let_def nth_append\<close>)

lemma col_index_cong: "df_columns d' = df_columns d \<Longrightarrow> col_index d' c = col_index d c"
  by (simp add: col_index_def)

lemma update_step_in:
  "col_index d k = Some j \<Longrightarrow>
   update_step idx d (k, v)
     = d\<lparr>df_rows := (df_rows d)[idx := (df_rows d ! idx)
            [j := (if cell_str (df_rows d ! idx ! j) \<noteq> v then Str v else df_rows d ! idx ! j)]]\<rparr>"
  by (simp add: update_step_def write_cell_def Let_def)

lemma update_step_columns:
  "col_index d k = Some j \<Longrightarrow> df_columns (update_step idx d (k, v)) = df_columns d"
  by (simp add: update_step_in)

lemma update_step_nrows:
  "col_index d k = Some j \<Longrightarrow> length (df_rows (update_step idx d (k, v))) = length (df_rows d)"
  by (simp add: update_step_in)

lemma update_step_other_row:
  "col_index d k = Some j \<Longrightarrow> i \<noteq> idx \<Longrightarrow> df_rows (update_step idx d (k, v)) ! i = df_rows d ! i"
  by (simp add: update_step_in)

lemma update_step_row_length:
  "col_index d k = Some j \<Longrightarrow>
   length (df_rows (update_step idx d (k, v)) ! i) = length (df_rows d ! i)"
  by (cases "i = idx"; cases "idx < length (df_rows d)")
     (simp_all add: update_step_in list_update_beyond)

lemma update_step_other_col:
  "col_index d k = Some j \<Longrightarrow> j' \<noteq> j \<Longrightarrow>
   df_rows (update_step idx d (k, v)) ! i ! j' = df_rows d ! i ! j'"
  by (cases "i = idx"; cases "idx < length (df_rows d)")
     (simp_all add: update_step_in list_update_beyond)

lemma update_step_written:
  "col_index d k = Some j \<Longrightarrow> idx < length (df_rows d) \<Longrightarrow> j < length (df_rows d ! idx) \<Longrightarrow>
   cell_str (df_rows (update_step idx d (k, v)) ! idx ! j) = v"
  by (simp add: update_step_in cell_str_def)

lemma update_step_noop:
  "col_index d k = Some j \<Longrightarrow> cell_str (df_rows d ! idx ! j) = v \<Longrightarrow> update_step idx d (k, v) = d"
  by (simp add: update_step_def Let_def)

lemma wf_update_step:
  "wf_df d \<Longrightarrow> col_index d k = Some j \<Longrightarrow> wf_df (update_step idx d (k, v))"
  unfolding wf_df_def list_all_length
  by (simp add: update_step_columns update_step_nrows update_step_row_length)

lemma foldl_update_shape:
  "fst ` set safe \<subseteq> set (df_columns d) \<Longrightarrow>
   df_columns (foldl (update_step idx) d safe) = df_columns d
   \<and> length (df_rows (foldl (update_step idx) d safe)) = length (df_rows d)
   \<and> (\<forall>i. i \<noteq> idx \<longrightarrow> df_rows (foldl (update_step idx) d safe) ! i = df_rows d ! i)
   \<and> (\<forall>i. length (df_rows (foldl (update_step idx) d safe) ! i) = length (df_rows d ! i))
   \<and> (\<forall>j. (\<forall>k \<in> fst ` set safe. col_index d k \<noteq> Some j) \<longrightarrow>
          (\<forall>i. df_rows (foldl (update_step idx) d safe) ! i ! j = df_rows d ! i ! j))"
proof (induction safe arbitrary: d)
  case Nil
  then show ?case by simp
next
  case (Cons kv safe)
  obtain k v where kv: "kv = (k, v)" by (cases kv)
  let ?d1 = "update_step idx d (k, v)"
  have "k \<in> set (df_columns d)" using Cons.prems kv by simp
  then obtain j where j: "col_index d k = Some j"
    using col_index_None [of d k] by (cases "col_index d k") auto
  have cols: "df_columns ?d1 = df_columns d" by (rule update_step_columns [OF j])
  have ci: "\<And>c. col_index ?d1 c = col_index d c" by (rule col_index_cong [OF cols])
  have keys: "fst ` set safe \<subseteq> set (df_columns ?d1)" using Cons.prems cols by simp
  note ih = Cons.IH [OF keys]
  have f: "foldl (update_step idx) d (kv # safe) = foldl (update_step idx) ?d1 safe"
    by (simp add: kv)
  show ?case
    unfolding f
  proof (intro conjI allI impI)
    show "df_columns (foldl (update_step idx) ?d1 safe) = df_columns d"
      using ih cols by simp
    show "length (df_rows (foldl (update_step idx) ?d1 safe)) = length (df_rows d)"
      using ih update_step_nrows [OF j] by simp
    show "df_rows (foldl (update_step idx) ?d1 safe) ! i = df_rows d ! i" if "i \<noteq> idx" for i
      using ih that update_step_other_row [OF j that] by simp
    show "length (df_rows (foldl (update_step idx) ?d1 safe) ! i) = length (df_rows d ! i)" for i
      using ih update_step_row_length [OF j] by simp
    show "df_rows (foldl (update_step idx) ?d1 safe) ! i ! j' = df_rows d ! i ! j'"
      if h: "\<forall>k \<in> fst ` set (kv # safe). col_index d k \<noteq> Some j'" for j' i
    proof -
      have "j' \<noteq> j" using h j kv by auto
      then have a: "df_rows ?d1 ! i ! j' = df_rows d ! i ! j'"
        by (rule update_step_other_col [OF j])
      have "\<forall>k \<in> fst ` set safe. col_index ?d1 k \<noteq> Some j'" using h ci by simp
      then have "df_rows (foldl (update_step idx) ?d1 safe) ! i ! j' = df_rows ?d1 ! i ! j'"
        using ih by blast
      with a show ?thesis by simp
    qed
  qed
qed

lemma wf_foldl_update:
  "wf_df d \<Longrightarrow> fst ` set safe \<subseteq> set (df_columns d) \<Longrightarrow> wf_df (foldl (update_step idx) d safe)"
  using foldl_update_shape [of safe d idx]
  unfolding wf_df_def list_all_length by simp

lemma foldl_update_written:
  "wf_df d \<Longrightarrow> fst ` set safe \<subseteq> set (df_columns d) \<Longrightarrow> distinct (map fst safe) \<Longrightarrow>
   idx < length (df_rows d) \<Longrightarrow> (k, v) \<in> set safe \<Longrightarrow> col_index d k = Some j \<Longrightarrow>
   cell_str (df_rows (foldl (update_step idx) d safe) ! idx ! j) = v"
proof (induction safe arbitrary: d)
  case Nil
  then show ?case by simp
next
  case (Cons kv safe)
  obtain k0 v0 where kv: "kv = (k0, v0)" by (cases kv)
  let ?d1 = "update_step idx d (k0, v0)"
  have "k0 \<in> set (df_columns d)" using Cons.prems(2) kv by simp
  then obtain j0 where j0: "col_index d k0 = Some j0"
    using col_index_None [of d k0] by (cases "col_index d k0") auto
  have cols: "df_columns ?d1 = df_columns d" by (rule update_step_columns [OF j0])
  have ci: "\<And>c. col_index ?d1 c = col_index d c" by (rule col_index_cong [OF cols])
  have keys: "fst ` set safe \<subseteq> set (df_columns ?d1)" using Cons.prems(2) cols by simp
  have wf1: "wf_df ?d1" by (rule wf_update_step [OF Cons.prems(1) j0])
  have dist: "distinct (map fst safe)" using Cons.prems(3) by simp
  have idx1: "idx < length (df_rows ?d1)" using Cons.prems(4) update_step_nrows [OF j0] by simp
  have f: "foldl (update_step idx) d (kv # safe) = foldl (update_step idx) ?d1 safe"
    by (simp add: kv)
  show ?case
  proof (cases "(k, v) \<in> set safe")
    case True
    show ?thesis
      unfolding f
      by (rule Cons.IH [OF wf1 keys dist idx1 True]) (simp add: ci Cons.prems(6))
  next
    case False
    then have e: "k = k0" "v = v0" using Cons.prems(5) kv by auto
    then have jj: "j = j0" using Cons.prems(6) j0 by simp
    have "j0 < length (df_rows d ! idx)"
      using col_index_Some [OF j0] wf_df_row_length [OF Cons.prems(1) Cons.prems(4)] by simp
    then have w: "cell_str (df_rows ?d1 ! idx ! j0) = v0"
      by (rule update_step_written [OF j0 Cons.prems(4)])
    have "\<forall>k' \<in> fst ` set safe. col_index ?d1 k' \<noteq> Some j0"
    proof
      fix k' assume k': "k' \<in> fst ` set safe"
      then have "k' \<noteq> k0" using Cons.prems(3) kv by auto
      then show "col_index ?d1 k' \<noteq> Some j0"
        using col_index_inj [of d k' j0 k0] j0 ci by auto
    qed
    then have "df_rows (foldl (update_step idx) ?d1 safe) ! idx ! j0 = df_rows ?d1 ! idx ! j0"
      using foldl_update_shape [OF keys, of idx] by blast
    then show ?thesis unfolding f using w e jj by simp
  qed
qed

lemma foldl_noop:
  "(\<And>x. x \<in> set xs \<Longrightarrow> f d x = d) \<Longrightarrow> foldl f d xs = d"
  by (induction xs) simp_all

lemma first_index_SomeI:
  "i < length xs \<Longrightarrow> p (xs ! i) \<Longrightarrow> (\<And>j. j < i \<Longrightarrow> \<not> p (xs ! j)) \<Longrightarrow>
   first_index p xs = Some i"
proof (cases "first_index p xs")
  case None
  assume "i < length xs" "p (xs ! i)"
  then show ?thesis using None first_index_None [of p xs] by auto
next
  case (Some i')
  assume a: "i < length xs" "p (xs ! i)" "\<And>j. j < i \<Longrightarrow> \<not> p (xs ! j)"
  from first_index_Some [OF Some] have b: "p (xs ! i')" "\<forall>j<i'. \<not> p (xs ! j)" by auto
  have "i' = i"
    using a(2,3) b by (meson linorder_neqE_nat)
  then show ?thesis using Some by simp
qed

lemma concat_row_no_new:
  "fst ` set safe \<subseteq> set (df_columns d) \<Longrightarrow>
   concat_row d safe
     = \<lparr>df_columns = df_columns d,
        df_rows = df_rows d
          @ [map (\<lambda>c. case map_of safe c of None \<Rightarrow> NaN | Some v \<Rightarrow> Str v) (df_columns d)]\<rparr>"
proof -
  assume k: "fst ` set safe \<subseteq> set (df_columns d)"
  have "filter (\<lambda>k. k \<notin> set (df_columns d)) (map fst safe) = []"
    using k by (auto simp: filter_empty_conv)
  then show ?thesis by (simp add: concat_row_def Let_def)
qed

lemma find_row_Some:
  "find_row d pk_col pk = Some idx \<Longrightarrow> col_index d pk_col = Some j \<Longrightarrow>
   idx < length (df_rows d) \<and> cell_str (df_rows d ! idx ! j) = pk
   \<and> (\<forall>i < idx. cell_str (df_rows d ! i ! j) \<noteq> pk)"
  using first_index_Some [of "\<lambda>r. cell_str (r ! j) = pk" "df_rows d" idx]
  by (simp add: find_row_def)

lemma upsert_rows_idem_found:
  assumes wf: "wf_df d" and keys: "fst ` set safe \<subseteq> set (df_columns d)"
    and dist: "distinct (map fst safe)" and pk: "map_of safe pk_col = Some pk"
    and fr: "find_row d pk_col pk = Some idx"
  shows "find_row (foldl (update_step idx) d safe) pk_col pk = Some idx
         \<and> foldl (update_step idx) (foldl (update_step idx) d safe) safe
             = foldl (update_step idx) d safe"
proof -
  let ?d2 = "foldl (update_step idx) d safe"
  have mem: "(pk_col, pk) \<in> set safe" using pk by (rule map_of_SomeD)
  then have "pk_col \<in> set (df_columns d)" using keys by force
  then obtain jp where jp: "col_index d pk_col = Some jp"
    using col_index_None [of d pk_col] by (cases "col_index d pk_col") auto
  note fs = find_row_Some [OF fr jp]
  have idx: "idx < length (df_rows d)" using fs by simp
  note sh = foldl_update_shape [OF keys, of idx]
  have cols: "df_columns ?d2 = df_columns d" using sh by simp
  have ci: "\<And>c. col_index ?d2 c = col_index d c" by (rule col_index_cong [OF cols])
  have wr: "\<And>k v j. (k, v) \<in> set safe \<Longrightarrow> col_index d k = Some j \<Longrightarrow>
              cell_str (df_rows ?d2 ! idx ! j) = v"
    by (rule foldl_update_written [OF wf keys dist idx])
  have "first_index (\<lambda>r. cell_str (r ! jp) = pk) (df_rows ?d2) = Some idx"
  proof (rule first_index_SomeI)
    show "idx < length (df_rows ?d2)" using sh idx by simp
    show "cell_str (df_rows ?d2 ! idx ! jp) = pk" by (rule wr [OF mem jp])
    fix i assume "i < idx"
    then show "cell_str (df_rows ?d2 ! i ! jp) \<noteq> pk" using sh fs by simp
  qed
  then have a: "find_row ?d2 pk_col pk = Some idx"
    by (simp add: find_row_def ci jp)
  have b: "foldl (update_step idx) ?d2 safe = ?d2"
  proof (rule foldl_noop)
    fix x assume x: "x \<in> set safe"
    obtain k v where kv: "x = (k, v)" by (cases x)
    have "k \<in> set (df_columns d)" using keys x kv by force
    then obtain j where j: "col_index d k = Some j"
      using col_index_None [of d k] by (cases "col_index d k") auto
    have "cell_str (df_rows ?d2 ! idx ! j) = v" using wr x kv j by simp
    then show "update_step idx ?d2 x = ?d2"
      unfolding kv by (rule update_step_noop [of ?d2 k j, unfolded ci, OF j])
  qed
  from a b show ?thesis by simp
qed

lemma upsert_rows_idem_new:
  assumes wf: "wf_df d" and keys: "fst ` set safe \<subseteq> set (df_columns d)"
    and dist: "distinct (map fst safe)" and pk: "map_of safe pk_col = Some pk"
    and fr: "find_row d pk_col pk = None"
  shows "find_row (concat_row d safe) pk_col pk = Some (length (df_rows d))
         \<and> foldl (update_step (length (df_rows d))) (concat_row d safe) safe = concat_row d safe"
proof -
  let ?row = "map (\<lambda>c. case map_of safe c of None \<Rightarrow> NaN | Some v \<Rightarrow> Str v) (df_columns d)"
  let ?d2 = "concat_row d safe"
  have d2: "?d2 = \<lparr>df_columns = df_columns d, df_rows = df_rows d @ [?row]\<rparr>"
    by (rule concat_row_no_new [OF keys])
  have cols: "df_columns ?d2 = df_columns d" by (simp add: d2)
  have ci: "\<And>c. col_index ?d2 c = col_index d c" by (rule col_index_cong [OF cols])
  have last: "df_rows ?d2 ! length (df_rows d) = ?row" by (simp add: d2)
  have cellv: "cell_str (?row ! j) = v" if "(k, v) \<in> set safe" "col_index d k = Some j" for k v j
  proof -
    have "map_of safe k = Some v" using dist that(1) by (rule map_of_is_SomeI)
    then show ?thesis using col_index_Some [OF that(2)] by (simp add: cell_str_def)
  qed
  have mem: "(pk_col, pk) \<in> set safe" using pk by (rule map_of_SomeD)
  then have "pk_col \<in> set (df_columns d)" using keys by force
  then obtain jp where jp: "col_index d pk_col = Some jp"
    using col_index_None [of d pk_col] by (cases "col_index d pk_col") auto
  have none: "first_index (\<lambda>r. cell_str (r ! jp) = pk) (df_rows d) = None"
    using fr jp by (simp add: find_row_def)
  have a: "find_row ?d2 pk_col pk = Some (length (df_rows d))"
    using cellv [OF mem jp] none
    by (simp add: find_row_def ci jp) (simp add: d2 first_index_append)
  have b: "foldl (update_step (length (df_rows d))) ?d2 safe = ?d2"
  proof (rule foldl_noop)
    fix x assume x: "x \<in> set safe"
    obtain k v where kv: "x = (k, v)" by (cases x)
    have "k \<in> set (df_columns d)" using keys x kv by force
    then obtain j where j: "col_index d k = Some j"
      using col_index_None [of d k] by (cases "col_index d k") auto
    have "cell_str (df_rows ?d2 ! length (df_rows d) ! j) = v"
      unfolding last using x kv j by (simp add: cellv)
    then show "update_step (length (df_rows d)) ?d2 x = ?d2"
      unfolding kv by (rule update_step_noop [of ?d2 k j, unfolded ci, OF j])
  qed
  from a b show ?thesis by simp
qed

lemma pk_of_nonempty: "pk_of safe pk_col \<noteq> [] \<Longrightarrow> map_of safe pk_col = Some (pk_of safe pk_col)"
  by (cases "map_of safe pk_col") (simp_all add: pk_of_def)

lemma upsert_rows_columns:
  "fst ` set safe \<subseteq> set (df_columns d) \<Longrightarrow> df_columns (upsert_rows d pk_col safe) = df_columns d"
  using foldl_update_shape [of safe d] concat_row_no_new [of safe d]
  by (simp add: upsert_rows_def Let_def split: option.splits)

lemma upsert_rows_idem:
  assumes wf: "wf_df d" and keys: "fst ` set safe \<subseteq> set (df_columns d)"
    and dist: "distinct (map fst safe)" and ne: "pk_of safe pk_col \<noteq> []"
  shows "upsert_rows (upsert_rows d pk_col safe) pk_col safe = upsert_rows d pk_col safe"
proof -
  note pk = pk_of_nonempty [OF ne]
  show ?thesis
  proof (cases "find_row d pk_col (pk_of safe pk_col)")
    case None
    from upsert_rows_idem_new [OF wf keys dist pk None] None ne
    show ?thesis by (simp add: upsert_rows_def Let_def)
  next
    case (Some idx)
    from upsert_rows_idem_found [OF wf keys dist pk Some] Some ne
    show ?thesis by (simp add: upsert_rows_def Let_def)
  qed
qed

lemma safe_updates_keys: "fst ` set (safe_updates updates allowed) \<subseteq> set allowed"
  by (auto simp: safe_updates_def)

lemma safe_updates_distinct:
  "distinct (map fst updates) \<Longrightarrow> distinct (map fst (safe_updates updates allowed))"
proof -
  assume d: "distinct (map fst updates)"
  have "map fst (safe_updates updates allowed) = filter (\<lambda>k. k \<in> set allowed) (map fst updates)"
    by (induction updates) (auto simp: safe_updates_def)
  then show ?thesis using d by simp
qed

lemma safe_updates_filter:
  "safe_updates (filter (\<lambda>(k, v). k \<in> set allowed) updates) allowed = safe_updates updates allowed"
  by (simp add: safe_updates_def)

lemma cell_at_foldl_update:
  assumes keys: "fst ` set safe \<subseteq> set (df_columns d)" and c: "c \<notin> fst ` set safe"
  shows "cell_at (foldl (update_step idx) d safe) i c = cell_at d i c"
proof (cases "col_index d c")
  case None
  then show ?thesis
    using foldl_update_shape [OF keys, of idx]
    by (simp add: cell_at_def col_index_def)
next
  case (Some j)
  have "\<forall>k \<in> fst ` set safe. col_index d k \<noteq> Some j"
    using col_index_inj [OF Some] c by metis
  then have "df_rows (foldl (update_step idx) d safe) ! i ! j = df_rows d ! i ! j"
    using foldl_update_shape [OF keys, of idx] by blast
  then show ?thesis
    using foldl_update_shape [OF keys, of idx] Some
    by (simp add: cell_at_def col_index_def)
qed

lemma cell_at_upsert_rows:
  assumes "wf_df d" "fst ` set safe \<subseteq> set (df_columns d)" "c \<notin> fst ` set safe"
    and "c \<in> set (df_columns d)" "i < length (df_rows d)"
  shows "cell_at (upsert_rows d pk_col safe) i c = cell_at d i c"
  using cell_at_foldl_update [OF assms(2,3)] cell_at_concat_row [OF assms(1,4,5)]
  by (simp add: upsert_rows_def Let_def split: option.splits)

lemma cell_at_concat_new:
  assumes "fst ` set safe \<subseteq> set (df_columns d)" "c \<in> set (df_columns d)"
  shows "cell_at (concat_row d safe) (length (df_rows d)) c
           = Some (case map_of safe c of None \<Rightarrow> NaN | Some v \<Rightarrow> Str v)"
proof -
  obtain j where j: "col_index d c = Some j"
    using assms(2) col_index_None [of d c] by (cases "col_index d c") auto
  have "col_index (concat_row d safe) c = Some j"
    using j by (simp add: concat_row_no_new [OF assms(1)] col_index_def)
  then show ?thesis
    using col_index_Some [OF j]
    by (simp add: cell_at_def) (simp add: concat_row_no_new [OF assms(1)])
qed

lemma upsert_rows_nrows:
  "fst ` set safe \<subseteq> set (df_columns d) \<Longrightarrow>
   length (df_rows d) \<le> length (df_rows (upsert_rows d pk_col safe))"
  using foldl_update_shape [of safe d] concat_row_length [of d safe]
  by (simp add: upsert_rows_def Let_def split: option.splits)

lemma set_list_set: "set (list_set xs) = set xs"
  by (simp add: list_set_def)

lemma upsert_selected_frame:
  assumes wf: "wf_df df"
  shows "upsert_selected df pk_col updates allowed
           = upsert_selected df pk_col (filter (\<lambda>(k, v). k \<in> set allowed) updates) allowed"
    and "c \<notin> set allowed \<Longrightarrow> c \<in> set (df_columns df) \<Longrightarrow> i < length (df_rows df) \<Longrightarrow>
         cell_at (upsert_selected df pk_col updates allowed) i c = cell_at df i c"
    and "set (df_columns (upsert_selected df pk_col updates allowed))
           = set (df_columns df) \<union> set allowed \<union> {pk_col}"
    and "length (df_rows df) \<le> length (df_rows (upsert_selected df pk_col updates allowed))"
proof -
  let ?d1 = "ensure_cols df (list_set (allowed @ [pk_col]))"
  let ?safe = "safe_updates updates allowed"
  have wf1: "wf_df ?d1" by (rule wf_ensure_cols [OF wf])
  have cs: "set (df_columns ?d1) = set (df_columns df) \<union> set allowed \<union> {pk_col}"
    by (auto simp: ensure_cols_columns_set set_list_set)
  have keys: "fst ` set ?safe \<subseteq> set (df_columns ?d1)"
    using safe_updates_keys [of updates allowed] cs by auto
  show "upsert_selected df pk_col updates allowed
           = upsert_selected df pk_col (filter (\<lambda>(k, v). k \<in> set allowed) updates) allowed"
    by (simp add: upsert_selected_def safe_updates_filter)
  show "set (df_columns (upsert_selected df pk_col updates allowed))
           = set (df_columns df) \<union> set allowed \<union> {pk_col}"
    using upsert_rows_columns [OF keys, of pk_col] cs by (simp add: upsert_selected_def Let_def)
  show "length (df_rows df) \<le> length (df_rows (upsert_selected df pk_col updates allowed))"
    using upsert_rows_nrows [OF keys, of pk_col] ensure_cols_length [of df]
    by (simp add: upsert_selected_def Let_def)
  show "cell_at (upsert_selected df pk_col updates allowed) i c = cell_at df i c"
    if c: "c \<notin> set allowed" "c \<in> set (df_columns df)" and i: "i < length (df_rows df)"
  proof -
    have "c \<notin> fst ` set ?safe" using safe_updates_keys [of updates allowed] c(1) by auto
    moreover have "c \<in> set (df_columns ?d1)" using cs c(2) by simp
    moreover have "i < length (df_rows ?d1)" using i by (simp add: ensure_cols_length)
    ultimately have "cell_at (upsert_rows ?d1 pk_col ?safe) i c = cell_at ?d1 i c"
      by (rule cell_at_upsert_rows [OF wf1 keys])
    then show ?thesis
      using cell_at_ensure_cols [OF wf c(2) i] by (simp add: upsert_selected_def Let_def)
  qed
qed

lemma upsert_selected_idem:
  assumes wf: "wf_df df" and dist: "distinct (map fst updates)"
    and ne: "pk_of (safe_updates updates allowed) pk_col \<noteq> []"
  shows "upsert_selected (upsert_selected df pk_col updates allowed) pk_col updates allowed
           = upsert_selected df pk_col updates allowed"
proof -
  let ?cs = "list_set (allowed @ [pk_col])"
  let ?d1 = "ensure_cols df ?cs"
  let ?safe = "safe_updates updates allowed"
  let ?d2 = "upsert_rows ?d1 pk_col ?safe"
  have wf1: "wf_df ?d1" by (rule wf_ensure_cols [OF wf])
  have cs: "set ?cs \<subseteq> set (df_columns ?d1)"
    by (simp add: ensure_cols_columns_set)
  have keys: "fst ` set ?safe \<subseteq> set (df_columns ?d1)"
    using safe_updates_keys [of updates allowed] cs by (auto simp: set_list_set)
  have "df_columns ?d2 = df_columns ?d1" by (rule upsert_rows_columns [OF keys])
  then have "ensure_cols ?d2 ?cs = ?d2" using cs by (simp add: ensure_cols_id)
  moreover have "upsert_rows ?d2 pk_col ?safe = ?d2"
    by (rule upsert_rows_idem [OF wf1 keys safe_updates_distinct [OF dist] ne])
  ultimately show ?thesis by (simp add: upsert_selected_def Let_def)
qed

lemma upsert_by_inward_idem:
  assumes wf: "wf_df df" and dist: "distinct (map fst updates)"
    and ne: "pk_of (map (\<lambda>(k, v). (k, str_or_empty v)) updates) ''InwardPK'' \<noteq> []"
  shows "upsert_by_inward (upsert_by_inward df updates) updates = upsert_by_inward df updates"
proof -
  let ?safe = "map (\<lambda>(k, v). (k, str_or_empty v)) updates"
  let ?cs = "map fst ?safe @ [''InwardPK'']"
  let ?d1 = "ensure_cols df ?cs"
  let ?d2 = "upsert_rows ?d1 ''InwardPK'' ?safe"
  have fs: "map fst ?safe = map fst updates" by (induction updates) auto
  have wf1: "wf_df ?d1" by (rule wf_ensure_cols [OF wf])
  have cs: "set ?cs \<subseteq> set (df_columns ?d1)"
    by (simp only: ensure_cols_columns_set) blast
  have keys: "fst ` set ?safe \<subseteq> set (df_columns ?d1)"
    using cs by (simp only: set_append set_map) blast
  have dist': "distinct (map fst ?safe)" using dist by (simp only: fs)
  have "df_columns ?d2 = df_columns ?d1" by (rule upsert_rows_columns [OF keys])
  then have "ensure_cols ?d2 ?cs = ?d2" using cs by (simp only: ensure_cols_id)
  moreover have "upsert_rows ?d2 ''InwardPK'' ?safe = ?d2"
    by (rule upsert_rows_idem [OF wf1 keys dist' ne])
  ultimately show ?thesis by (simp add: upsert_by_inward_def Let_def)
qed

lemma upsert_selected_new_rows:
  assumes wf: "wf_df df" and c: "c \<notin> set allowed" and i: "length (df_rows df) \<le> i"
  shows "cell_at (upsert_selected df pk_col updates allowed) i c \<in> {None, Some NaN}"
proof -
  let ?d1 = "ensure_cols df (list_set (allowed @ [pk_col]))"
  let ?safe = "safe_updates updates allowed"
  have cs: "set (df_columns ?d1) = set (df_columns df) \<union> set allowed \<union> {pk_col}"
    by (auto simp: ensure_cols_columns_set set_list_set)
  have keys: "fst ` set ?safe \<subseteq> set (df_columns ?d1)"
    using safe_updates_keys [of updates allowed] cs by auto
  have n1: "length (df_rows ?d1) = length (df_rows df)" by (rule ensure_cols_length)
  have nk: "map_of ?safe c = None"
    using safe_updates_keys [of updates allowed] c by (auto simp: map_of_eq_None_iff)
  have fold: "cell_at (foldl (update_step idx) ?d1 ?safe) i c = None" for idx
    using foldl_update_shape [OF keys, of idx] i n1 by (simp add: cell_at_def)
  have conc: "cell_at (concat_row ?d1 ?safe) i c \<in> {None, Some NaN}"
  proof (cases "i = length (df_rows ?d1) \<and> c \<in> set (df_columns ?d1)")
    case True
    then show ?thesis using cell_at_concat_new [OF keys, of c] nk by simp
  next
    case False
    then have "cell_at (concat_row ?d1 ?safe) i c = None"
      using i n1 col_index_None [of "concat_row ?d1 ?safe" c]
      by (auto simp: cell_at_def concat_row_no_new [OF keys])
    then show ?thesis by simp
  qed
  show ?thesis
    using fold conc by (simp add: upsert_selected_def upsert_rows_def Let_def split: option.splits)
qed

text \<open>
  C2, as stated, fails for the FIRC handler: \<open>upsert_by_inward\<close> takes no list of allowed
  columns and writes every key of its payload. Here a column that is in neither handler's
  canonical list is overwritten on an existing row.
\<close>

theorem firc_merge_writes_unlisted_column:
  "''Remarks'' \<notin> set FIRC_CANON \<and> ''Remarks'' \<notin> set ALLOWED_TO_UPDATE
   \<and> cell_at df0 0 ''Remarks'' = Some (Str ''keep'')
   \<and> cell_at (upsert_by_inward df0 [(''InwardPK'', Some ''R1''), (''Remarks'', Some ''x'')])
        0 ''Remarks'' = Some (Str ''x'')"
  by code_simp

text \<open>
  C2, amended. The disposal handler's merge \<open>upsert_selected\<close> writes payload values only
  to columns in \<open>allowed_cols\<close>: payload keys outside the list have no effect on the
  result; every cell of an existing row in a column outside the list is unchanged; an
  appended row is missing in every column outside the list; and the only label the frame
  can gain outside the list is the primary-key column, which \<open>ensure_cols\<close> creates.
\<close>

theorem disposal_merge_only_allowed:
  assumes "wf_df df"
  shows "upsert_selected df pk_col updates allowed
           = upsert_selected df pk_col (filter (\<lambda>(k, v). k \<in> set allowed) updates) allowed
    \<and> (\<forall>c i. c \<notin> set allowed \<and> c \<in> set (df_columns df) \<and> i < length (df_rows df) \<longrightarrow>
          cell_at (upsert_selected df pk_col updates allowed) i c = cell_at df i c)
    \<and> (\<forall>c i. c \<notin> set allowed \<and> length (df_rows df) \<le> i \<longrightarrow>
          cell_at (upsert_selected df pk_col updates allowed) i c \<in> {None, Some NaN})
    \<and> set (df_columns (upsert_selected df pk_col updates allowed))
           = set (df_columns df) \<union> set allowed \<union> {pk_col}"
proof (intro conjI allI impI)
  show "upsert_selected df pk_col updates allowed
           = upsert_selected df pk_col (filter (\<lambda>(k, v). k \<in> set allowed) updates) allowed"
    by (rule upsert_selected_frame(1) [OF assms])
  show "cell_at (upsert_selected df pk_col updates allowed) i c = cell_at df i c"
    if "c \<notin> set allowed \<and> c \<in> set (df_columns df) \<and> i < length (df_rows df)" for c i
    using that by (intro upsert_selected_frame(2) [OF assms]) simp_all
  show "cell_at (upsert_selected df pk_col updates allowed) i c \<in> {None, Some NaN}"
    if "c \<notin> set allowed \<and> length (df_rows df) \<le> i" for c i
    using that by (intro upsert_selected_new_rows [OF assms]) simp_all
  show "set (df_columns (upsert_selected df pk_col updates allowed))
           = set (df_columns df) \<union> set allowed \<union> {pk_col}"
    by (rule upsert_selected_frame(3) [OF assms])
qed

theorem disposal_merge_only_allowed_witness:
  "wf_df df0
   \<and> upsert_selected df0 ''InwardPK'' payload_keyed allowed_demo
       = \<lparr>df_columns = [''InwardPK'', ''RemitterName'', ''Remarks''],
          df_rows = [[Str ''R1'', Str ''Bob'', Str ''keep'']]\<rparr>
   \<and> cell_at (upsert_selected df0 ''InwardPK'' payload_keyed allowed_demo) 0 ''Remarks''
       = cell_at df0 0 ''Remarks''"
proof -
  have w: "wf_df df0" by (simp add: wf_df_def df0_def)
  have e: "upsert_selected df0 ''InwardPK'' payload_keyed allowed_demo
       = \<lparr>df_columns = [''InwardPK'', ''RemitterName'', ''Remarks''],
          df_rows = [[Str ''R1'', Str ''Bob'', Str ''keep'']]\<rparr>"
    by code_simp
  have "''Remarks'' \<notin> set allowed_demo \<and> ''Remarks'' \<in> set (df_columns df0)
        \<and> 0 < length (df_rows df0)"
    by (simp add: allowed_demo_def df0_def)
  then have "cell_at (upsert_selected df0 ''InwardPK'' payload_keyed allowed_demo) 0 ''Remarks''
       = cell_at df0 0 ''Remarks''"
    using disposal_merge_only_allowed [OF w, of "''InwardPK''" payload_keyed allowed_demo]
    by blast
  with w e show ?thesis by simp
qed

text \<open>
  C3, as stated, fails when the payload carries no key value: each merge appends one more
  unkeyed row.
\<close>

theorem merge_twice_unkeyed_differs:
  "upsert_selected (upsert_selected df0 ''InwardPK'' payload_unkeyed allowed_demo)
       ''InwardPK'' payload_unkeyed allowed_demo
     \<noteq> upsert_selected df0 ''InwardPK'' payload_unkeyed allowed_demo"
  by code_simp

text \<open>
  C3, amended. Given a non-empty key value in the sanitized payload, applying the same
  merge twice yields the store that applying it once yields, for the merge of either
  handler.
\<close>

theorem merge_idempotent_keyed:
  assumes "wf_df df" "distinct (map fst updates)"
  shows "(pk_of (safe_updates updates allowed) pk_col \<noteq> [] \<longrightarrow>
            upsert_selected (upsert_selected df pk_col updates allowed) pk_col updates allowed
              = upsert_selected df pk_col updates allowed)
    \<and> (pk_of (map (\<lambda>(k, v). (k, str_or_empty v)) updates) ''InwardPK'' \<noteq> [] \<longrightarrow>
            upsert_by_inward (upsert_by_inward df updates) updates = upsert_by_inward df updates)"
  using upsert_selected_idem [OF assms] upsert_by_inward_idem [OF assms]
  by blast

theorem merge_idempotent_keyed_witness:
  "wf_df df0 \<and> distinct (map fst payload_keyed)
   \<and> pk_of (safe_updates payload_keyed allowed_demo) ''InwardPK'' = ''R1''
   \<and> upsert_selected (upsert_selected df0 ''InwardPK'' payload_keyed allowed_demo)
         ''InwardPK'' payload_keyed allowed_demo
       = upsert_selected df0 ''InwardPK'' payload_keyed allowed_demo
   \<and> upsert_by_inward (upsert_by_inward df0 payload_keyed) payload_keyed
       = upsert_by_inward df0 payload_keyed"
proof -
  have w: "wf_df df0" by (simp add: wf_df_def df0_def)
  have d: "distinct (map fst payload_keyed)" by (simp add: payload_keyed_def)
  have p1: "pk_of (safe_updates payload_keyed allowed_demo) ''InwardPK'' = ''R1''"
    by (simp add: pk_of_def safe_updates_def payload_keyed_def allowed_demo_def str_or_empty_def)
  have p2: "pk_of (map (\<lambda>(k, v). (k, str_or_empty v)) payload_keyed) ''InwardPK'' = ''R1''"
    by (simp add: pk_of_def payload_keyed_def str_or_empty_def)
  show ?thesis
    using merge_idempotent_keyed [OF w d, of allowed_demo "''InwardPK''"] w d p1 p2
    by simp
qed

text \<open>
  C10. If the primary-key column is not in the allowed list, \<open>upsert_selected\<close> filters
  the key out of the sanitized payload, reads the key as empty and appends one new row whose
  key cell is missing; no existing row is touched.
\<close>

theorem key_outside_allowed_appends:
  assumes "wf_df df" "pk_col \<notin> set allowed"
  shows "pk_of (safe_updates updates allowed) pk_col = []
    \<and> upsert_selected df pk_col updates allowed
        = concat_row (ensure_cols df (list_set (allowed @ [pk_col]))) (safe_updates updates allowed)
    \<and> length (df_rows (upsert_selected df pk_col updates allowed)) = Suc (length (df_rows df))
    \<and> cell_at (upsert_selected df pk_col updates allowed) (length (df_rows df)) pk_col = Some NaN
    \<and> (\<forall>i c. i < length (df_rows df) \<and> c \<in> set (df_columns df) \<longrightarrow>
          cell_at (upsert_selected df pk_col updates allowed) i c = cell_at df i c)"
proof -
  let ?d1 = "ensure_cols df (list_set (allowed @ [pk_col]))"
  let ?safe = "safe_updates updates allowed"
  have wf1: "wf_df ?d1" by (rule wf_ensure_cols [OF assms(1)])
  have cs: "set (df_columns ?d1) = set (df_columns df) \<union> set allowed \<union> {pk_col}"
    by (auto simp: ensure_cols_columns_set set_list_set)
  have keys: "fst ` set ?safe \<subseteq> set (df_columns ?d1)"
    using safe_updates_keys [of updates allowed] cs by auto
  have n1: "length (df_rows ?d1) = length (df_rows df)" by (rule ensure_cols_length)
  have nk: "map_of ?safe pk_col = None"
    using safe_updates_keys [of updates allowed] assms(2) by (auto simp: map_of_eq_None_iff)
  then have a: "pk_of ?safe pk_col = []" by (simp add: pk_of_def)
  then have b: "upsert_selected df pk_col updates allowed = concat_row ?d1 ?safe"
    by (simp add: upsert_selected_def upsert_rows_def Let_def)
  have c: "length (df_rows (concat_row ?d1 ?safe)) = Suc (length (df_rows df))"
    by (simp add: concat_row_length n1)
  have d: "cell_at (concat_row ?d1 ?safe) (length (df_rows df)) pk_col = Some NaN"
    using cell_at_concat_new [OF keys, of pk_col] cs nk n1 by simp
  have e: "cell_at (concat_row ?d1 ?safe) i c = cell_at df i c"
    if "i < length (df_rows df)" "c \<in> set (df_columns df)" for i c
  proof -
    have "cell_at (concat_row ?d1 ?safe) i c = cell_at ?d1 i c"
      using that cs n1 by (intro cell_at_concat_row [OF wf1]) simp_all
    then show ?thesis using cell_at_ensure_cols [OF assms(1) that(2) that(1)] by simp
  qed
  show ?thesis using a c d e unfolding b by blast
qed

theorem key_outside_allowed_appends_witness:
  "wf_df df0
   \<and> upsert_selected df0 ''RemitterPK''
        [(''RemitterPK'', Some ''S9''), (''InwardPK'', Some ''R1''), (''RemitterName'', Some ''Bob'')]
        [''RemitterName'']
       = \<lparr>df_columns = [''InwardPK'', ''RemitterName'', ''Remarks'', ''RemitterPK''],
          df_rows = [[Str ''R1'', Str ''Alice'', Str ''keep'', Str ''''],
                     [NaN, Str ''Bob'', NaN, NaN]]\<rparr>
   \<and> length (df_rows (upsert_selected df0 ''RemitterPK''
        [(''RemitterPK'', Some ''S9''), (''InwardPK'', Some ''R1''), (''RemitterName'', Some ''Bob'')]
        [''RemitterName''])) = 2"
proof -
  have w: "wf_df df0" by (simp add: wf_df_def df0_def)
  have n: "''RemitterPK'' \<notin> set [''RemitterName'']" by simp
  have e: "concat_row (ensure_cols df0 (list_set ([''RemitterName''] @ [''RemitterPK''])))
             (safe_updates [(''RemitterPK'', Some ''S9''), (''InwardPK'', Some ''R1''),
                (''RemitterName'', Some ''Bob'')] [''RemitterName''])
       = \<lparr>df_columns = [''InwardPK'', ''RemitterName'', ''Remarks'', ''RemitterPK''],
          df_rows = [[Str ''R1'', Str ''Alice'', Str ''keep'', Str ''''],
                     [NaN, Str ''Bob'', NaN, NaN]]\<rparr>"
    by code_simp
  have l: "length (df_rows df0) = 1" by (simp add: df0_def)
  show ?thesis
    using key_outside_allowed_appends [OF w n, of
        "[(''RemitterPK'', Some ''S9''), (''InwardPK'', Some ''R1''), (''RemitterName'', Some ''Bob'')]"]
      w e l
    by simp
qed

section \<open>The retry protocol\<close>













section \<open>Password candidates\<close>

lemma dedup_append: "dedup_seen S (a @ b) = dedup_seen S a @ dedup_seen (S \<union> set a) b"
  by (induction a arbitrary: S) (auto simp: insert_absorb)

lemma dedup_dedup: "dedup_seen S (dedup_seen T xs) = dedup_seen (S \<union> T) xs"
proof (induction xs arbitrary: S T)
  case Nil
  show ?case by simp
next
  case (Cons x xs)
  show ?case
  proof (cases "x \<in> T")
    case True
    then show ?thesis by (simp add: Cons.IH)
  next
    case False
    show ?thesis
    proof (cases "x \<in> S")
      case True
      then have "S \<union> insert x T = S \<union> T" by auto
      with True False show ?thesis by (simp add: Cons.IH)
    next
      case xS: False
      have "insert x S \<union> insert x T = insert x (S \<union> T)" by auto
      with xS False show ?thesis by (simp add: Cons.IH)
    qed
  qed
qed

lemma dedup_set: "set (dedup_seen S xs) = set xs - S"
  by (induction xs arbitrary: S) auto

lemma dedup_distinct: "distinct (dedup_seen S xs)"
  by (induction xs arbitrary: S) (auto simp: dedup_set)

lemma dedup_firsts:
  "dedup_seen S xs
     = map (\<lambda>i. xs ! i) (filter (\<lambda>i. xs ! i \<notin> S \<union> set (take i xs)) [0..<length xs])"
proof (induction xs arbitrary: S)
  case Nil
  show ?case by simp
next
  case (Cons x xs)
  have up: "[0..<length (x # xs)] = 0 # map Suc [0..<length xs]"
    by (simp add: upt_conv_Cons map_Suc_upt del: upt_Suc)
  have tl: "map (\<lambda>i. (x # xs) ! i)
              (filter (\<lambda>i. (x # xs) ! i \<notin> S \<union> set (take i (x # xs))) (map Suc [0..<length xs]))
            = map (\<lambda>i. xs ! i)
                (filter (\<lambda>i. xs ! i \<notin> insert x S \<union> set (take i xs)) [0..<length xs])"
    by (simp add: filter_map comp_def conj_ac)
  have hd: "map (\<lambda>i. (x # xs) ! i)
              (filter (\<lambda>i. (x # xs) ! i \<notin> S \<union> set (take i (x # xs))) [0..<length (x # xs)])
            = (if x \<in> S then [] else [x])
              @ map (\<lambda>i. xs ! i)
                  (filter (\<lambda>i. xs ! i \<notin> insert x S \<union> set (take i xs)) [0..<length xs])"
    unfolding up using tl by simp
  show ?case
  proof (cases "x \<in> S")
    case True
    then have e: "insert x S = S" by auto
    have "dedup_seen S (x # xs) = dedup_seen S xs" using True by simp
    also have "\<dots> = map (\<lambda>i. xs ! i)
            (filter (\<lambda>i. xs ! i \<notin> S \<union> set (take i xs)) [0..<length xs])"
      by (rule Cons.IH)
    finally show ?thesis
      unfolding hd e using True by simp
  next
    case False
    have "dedup_seen S (x # xs) = x # dedup_seen (insert x S) xs"
      using False by simp
    also have "dedup_seen (insert x S) xs
        = map (\<lambda>i. xs ! i)
            (filter (\<lambda>i. xs ! i \<notin> insert x S \<union> set (take i xs)) [0..<length xs])"
      by (rule Cons.IH)
    finally show ?thesis
      unfolding hd using False by simp
  qed
qed

lemma dedup_prefix: "dedup_seen S (a @ dedup_seen {} b) = dedup_seen S (a @ b)"
  by (simp add: dedup_append dedup_dedup)

text \<open>
  C8. The candidate list is the deduplication of the sources in the order: the rule's
  password, \<open>PDF_PASSWORD\<close>, the three bank variables, the comma-separated
  \<open>PDF_PASSWORDS\<close>, the lookup table (sender map, domain map, subject map), the hints in
  the body. Every string is kept once, at the position of its first occurrence in that
  order: the list consists of the entries of the concatenated sources that do not occur at
  an earlier position.
\<close>

theorem candidates_priority_dedup:
  "(let sources = (if truthy (pdf_password m) then [the (pdf_password m)] else [])
                  @ env_global env @ env_banks env @ env_multi env
                  @ lookup_passwords file sender subject
                  @ body_hints email_body;
        cands = handle_candidates m env file email_body sender subject
    in cands = dedup_seen {} sources
       \<and> distinct cands
       \<and> set cands = set sources
       \<and> cands = map (\<lambda>i. sources ! i)
                    (filter (\<lambda>i. sources ! i \<notin> set (take i sources)) [0..<length sources]))
   \<and> (file = PwFile j \<and> senders j = Some sm \<and> domains j = Some dm \<and> subjects j = Some um
        \<longrightarrow> lookup_passwords file sender subject
              = pw_hits sm (lower sender) @ pw_hits dm (lower sender) @ pw_hits um (lower subject))"
proof -
  let ?src = "(if truthy (pdf_password m) then [the (pdf_password m)] else [])
                  @ env_global env @ env_banks env @ env_multi env
                  @ lookup_passwords file sender subject
                  @ body_hints email_body"
  let ?c = "handle_candidates m env file email_body sender subject"
  have "?c = dedup_seen {} ((if truthy (pdf_password m) then [the (pdf_password m)] else [])
               @ dedup_seen {} (env_global env @ env_banks env @ env_multi env
                  @ lookup_passwords file sender subject @ body_hints email_body))"
    by (simp add: handle_candidates_def gather_candidate_passwords_def Let_def)
  also have "\<dots> = dedup_seen {} ?src"
    by (rule dedup_prefix)
  finally have a: "?c = dedup_seen {} ?src" .
  have b: "distinct ?c" unfolding a by (rule dedup_distinct)
  have c: "set ?c = set ?src" unfolding a by (simp only: dedup_set Diff_empty)
  have d: "?c = map (\<lambda>i. ?src ! i) (filter (\<lambda>i. ?src ! i \<notin> set (take i ?src)) [0..<length ?src])"
    unfolding a using dedup_firsts [of "{}" ?src] by (simp only: Un_empty_left)
  have e: "file = PwFile j \<and> senders j = Some sm \<and> domains j = Some dm \<and> subjects j = Some um
        \<longrightarrow> lookup_passwords file sender subject
              = pw_hits sm (lower sender) @ pw_hits dm (lower sender) @ pw_hits um (lower subject)"
    by (simp add: lookup_passwords_def)
  show ?thesis
    unfolding Let_def using a b c d e by (intro conjI)
qed

lemma demo_candidates:
  "handle_candidates demo_match demo_env demo_pw_file ''Password: z and pwd - q1''
     ''yestouch@yesbank.in'' ''Advice''
   = [''21893044'', ''a'', ''b'', ''z'', ''d'', ''q1'']"
  by code_simp

lemma demo_sources:
  "(if truthy (pdf_password demo_match) then [the (pdf_password demo_match)] else [])
     @ env_global demo_env @ env_banks demo_env @ env_multi demo_env
     @ lookup_passwords demo_pw_file ''yestouch@yesbank.in'' ''Advice''
     @ body_hints ''Password: z and pwd - q1''
   = [''21893044'', ''21893044'', ''a'', ''b'', ''a'', ''b'', ''z'', ''z'', ''d'', ''z'', ''q1'']"
  by code_simp

theorem candidates_priority_dedup_witness:
  "handle_candidates demo_match demo_env demo_pw_file ''Password: z and pwd - q1''
     ''yestouch@yesbank.in'' ''Advice''
   = [''21893044'', ''a'', ''b'', ''z'', ''d'', ''q1'']
   \<and> dedup_seen {}
        [''21893044'', ''21893044'', ''a'', ''b'', ''a'', ''b'', ''z'', ''z'', ''d'', ''z'', ''q1'']
       = [''21893044'', ''a'', ''b'', ''z'', ''d'', ''q1'']
   \<and> lookup_passwords demo_pw_file ''yestouch@yesbank.in'' ''Advice''
       = pw_hits [(''YesTouch'', Some [''b'', ''z''])] (lower ''yestouch@yesbank.in'')
         @ pw_hits [(''yesbank.in'', Some [''z'', ''d''])] (lower ''yestouch@yesbank.in'')
         @ pw_hits [(''advice'', None)] (lower ''Advice'')"
  using candidates_priority_dedup [of demo_match demo_env demo_pw_file "''yestouch@yesbank.in''"
      "''Advice''" "''Password: z and pwd - q1''"
      "\<lparr>domains = Some [(''yesbank.in'', Some [''z'', ''d''])],
        senders = Some [(''YesTouch'', Some [''b'', ''z''])],
        subjects = Some [(''advice'', None)]\<rparr>"
      "[(''YesTouch'', Some [''b'', ''z''])]" "[(''yesbank.in'', Some [''z'', ''d''])]"
      "[(''advice'', None)]"]
  unfolding Let_def demo_sources demo_candidates
  by (simp add: demo_pw_file_def)

section \<open>The classifier's text comparisons\<close>

lemma is_space_lower_chr: "is_space (lower_chr c) = is_space c"
proof (cases "map_of (zip ''ABCDEFGHIJKLMNOPQRSTUVWXYZ'' ''abcdefghijklmnopqrstuvwxyz'') c")
  case None
  then show ?thesis by (simp add: lower_chr_def)
next
  case (Some d)
  then have "\<not> is_space c \<and> \<not> is_space d"
    by (auto simp: is_space_def split: if_splits)
  then show ?thesis using Some by (simp add: lower_chr_def)
qed

lemma collapse_from_True: "collapse_from True cs = collapse_from False (dropWhile is_space cs)"
  by (induction cs) simp_all

lemma collapse_ws_from: "collapse_ws s = collapse_from False s"
  by (induction s rule: collapse_ws.induct) (simp_all add: collapse_from_True)

lemma collapse_from_append:
  "collapse_from f (xs @ ys)
     = collapse_from f xs @ collapse_from (if xs = [] then f else is_space (last xs)) ys"
  by (induction xs arbitrary: f) simp_all

lemma collapse_rerun:
  "is_space w \<Longrightarrow> is_space w' \<Longrightarrow> collapse_ws (a @ w # w' # b) = collapse_ws (a @ w # b)"
  by (simp add: collapse_ws_from collapse_from_append)

lemma collapse_respace:
  "is_space w \<Longrightarrow> is_space w' \<Longrightarrow> collapse_ws (a @ w # b) = collapse_ws (a @ w' # b)"
  by (simp add: collapse_ws_from collapse_from_append)

lemma same_text_norm: "same_text s s' \<Longrightarrow> norm_spaces s = norm_spaces s'"
proof (induction rule: same_text.induct)
  case (st_same s)
  show ?case by simp
next
  case (st_case s s')
  then show ?case by (simp add: norm_spaces_def)
next
  case (st_run w w' a b)
  then have "collapse_ws (lower a @ lower_chr w # lower_chr w' # lower b)
             = collapse_ws (lower a @ lower_chr w # lower b)"
    by (intro collapse_rerun) (simp_all add: is_space_lower_chr)
  then show ?case by (simp add: norm_spaces_def lower_def)
next
  case (st_space w w' a b)
  then have "collapse_ws (lower a @ lower_chr w # lower b)
             = collapse_ws (lower a @ lower_chr w' # lower b)"
    by (intro collapse_respace) (simp_all add: is_space_lower_chr)
  then show ?case by (simp add: norm_spaces_def lower_def)
next
  case (st_sym s s')
  then show ?case by simp
next
  case (st_trans s s' s'')
  then show ?case by simp
qed

lemma contains_same_text:
  "same_text hay hay' \<Longrightarrow> same_text needle needle' \<Longrightarrow> contains hay needle = contains hay' needle'"
  by (simp add: contains_def same_text_norm)

lemma contains_all_same_text:
  "same_text hay hay' \<Longrightarrow> list_all2 (rel_option same_text) needles needles' \<Longrightarrow>
   contains_all hay needles = contains_all hay' needles'"
proof -
  assume h: "same_text hay hay'" and n: "list_all2 (rel_option same_text) needles needles'"
  have nh: "norm_spaces hay = norm_spaces hay'" using h by (rule same_text_norm)
  from n have "list_all (\<lambda>n. str_in (norm_spaces (the n)) x) (filter (\<lambda>n. n \<noteq> None) needles)
      = list_all (\<lambda>n. str_in (norm_spaces (the n)) x) (filter (\<lambda>n. n \<noteq> None) needles')" for x
  proof (induction rule: list_all2_induct)
    case Nil
    show ?case by simp
  next
    case (Cons n ns n' ns')
    from Cons(1) Cons.IH show ?case
      by (cases n; cases n') (simp_all add: same_text_norm)
  qed
  then show ?thesis by (simp add: contains_all_def nh)
qed

lemma case_lower:
  "lower (case n of None \<Rightarrow> [] | Some s \<Rightarrow> s) = (case map_option lower n of None \<Rightarrow> [] | Some s \<Rightarrow> s)"
  by (cases n) (simp_all add: lower_def)

lemma attachment_name_contains_case:
  assumes "map (\<lambda>a. lower (filename a)) (Attachments ctx)
             = map (\<lambda>a. lower (filename a)) (Attachments ctx')"
    and "map (map_option lower) needles = map (map_option lower) needles'"
  shows "attachment_name_contains ctx needles = attachment_name_contains ctx' needles'"
proof -
  have eq: "(\<lambda>n. lower (case n of None \<Rightarrow> [] | Some s \<Rightarrow> s))
            = (\<lambda>n. case n of None \<Rightarrow> [] | Some s \<Rightarrow> s) \<circ> map_option lower"
    by (rule ext) (simp only: case_lower comp_apply)
  have "map (\<lambda>n. lower (case n of None \<Rightarrow> [] | Some s \<Rightarrow> s)) needles
          = map (\<lambda>n. case n of None \<Rightarrow> [] | Some s \<Rightarrow> s) (map (map_option lower) needles)"
    by (simp only: eq map_map)
  also have "\<dots> = map (\<lambda>n. case n of None \<Rightarrow> [] | Some s \<Rightarrow> s) (map (map_option lower) needles')"
    by (simp only: assms(2))
  also have "\<dots> = map (\<lambda>n. lower (case n of None \<Rightarrow> [] | Some s \<Rightarrow> s)) needles'"
    by (simp only: eq map_map)
  finally show ?thesis
    using assms(1) by (simp add: attachment_name_contains_def)
qed

lemma attachment_ext_is_case:
  assumes "map (\<lambda>a. lower (filename a)) (Attachments ctx)
             = map (\<lambda>a. lower (filename a)) (Attachments ctx')"
  shows "attachment_ext_is ctx exts r = attachment_ext_is ctx' exts r"
  using assms by (simp add: attachment_ext_is_def)

lemma has_attachment_case:
  assumes "map (\<lambda>a. lower (filename a)) (Attachments ctx)
             = map (\<lambda>a. lower (filename a)) (Attachments ctx')"
  shows "has_attachment ctx = has_attachment ctx'"
proof -
  have "length (Attachments ctx) = length (Attachments ctx')"
    using assms by (rule map_eq_imp_length_eq)
  then show ?thesis by (auto simp: has_attachment_def)
qed

lemma categorize_same_text:
  assumes s: "same_text (Subject ctx) (Subject ctx')" and b: "same_text (Body ctx) (Body ctx')"
    and a: "map (\<lambda>a. lower (filename a)) (Attachments ctx)
             = map (\<lambda>a. lower (filename a)) (Attachments ctx')"
  shows "categorize ctx = categorize ctx'"
proof -
  have c1: "contains (Subject ctx) n = contains (Subject ctx') n" for n
    by (rule contains_same_text [OF s same_text.st_same])
  have "list_all2 (rel_option same_text) ns ns" for ns
    by (rule list_all2_refl) (simp add: option.rel_refl same_text.st_same)
  then have c2: "contains_all (Body ctx) ns = contains_all (Body ctx') ns" for ns
    by (rule contains_all_same_text [OF b])
  have c3: "has_attachment ctx = has_attachment ctx'" by (rule has_attachment_case [OF a])
  have c4: "attachment_ext_is ctx e r = attachment_ext_is ctx' e r" for e r
    by (rule attachment_ext_is_case [OF a])
  have c5: "attachment_name_contains ctx ns = attachment_name_contains ctx' ns" for ns
    by (rule attachment_name_contains_case [OF a refl])
  show ?thesis
    by (simp only: categorize_def Let_def c1 c2 c3 c4 c5)
qed

text \<open>
  C5, as stated, fails for the attachment-filename comparison: \<open>attachment_name_contains\<close>
  lowercases both sides and collapses nothing. Two filenames that differ only in the length
  of a whitespace run are told apart.
\<close>

theorem attachment_name_whitespace_literal:
  "same_text ''Advice copy.PDF'' ''Advice  copy.PDF''
   \<and> attachment_name_contains (ctx_with_file ''Advice copy.PDF'') [Some ''advice COPY'']
   \<and> \<not> attachment_name_contains (ctx_with_file ''Advice  copy.PDF'') [Some ''advice COPY'']"
proof -
  have "same_text (''Advice'' @ CHR '' '' # ''copy.PDF'') (''Advice'' @ CHR '' '' # CHR '' '' # ''copy.PDF'')"
    by (rule same_text.st_run) (simp_all add: is_space_def)
  then have a: "same_text ''Advice copy.PDF'' ''Advice  copy.PDF''" by simp
  have b: "attachment_name_contains (ctx_with_file ''Advice copy.PDF'') [Some ''advice COPY'']"
    by code_simp
  have c: "\<not> attachment_name_contains (ctx_with_file ''Advice  copy.PDF'') [Some ''advice COPY'']"
    by code_simp
  from a b c show ?thesis by simp
qed

text \<open>
  C5, amended. The subject and body comparisons (\<open>_contains\<close>, \<open>_contains_all\<close>) are
  case-insensitive with whitespace runs collapsed on both sides: texts and needles that are
  the same up to case and whitespace runs give the same answer. The attachment-filename
  comparison is case-insensitive only. Hence \<open>categorize\<close> gives the same matches for two
  mails whose subjects and bodies are the same up to case and whitespace runs and whose
  attachment filenames are the same up to case.
\<close>

theorem subject_body_comparisons_normalised:
  "(same_text hay hay' \<and> same_text needle needle'
      \<longrightarrow> contains hay needle = contains hay' needle')
   \<and> (same_text hay hay' \<and> list_all2 (rel_option same_text) needles needles'
      \<longrightarrow> contains_all hay needles = contains_all hay' needles')
   \<and> (map (\<lambda>a. lower (filename a)) (Attachments ctx)
          = map (\<lambda>a. lower (filename a)) (Attachments ctx')
        \<and> map (map_option lower) names = map (map_option lower) names'
      \<longrightarrow> attachment_name_contains ctx names = attachment_name_contains ctx' names')
   \<and> (same_text (Subject ctx) (Subject ctx') \<and> same_text (Body ctx) (Body ctx')
        \<and> map (\<lambda>a. lower (filename a)) (Attachments ctx)
          = map (\<lambda>a. lower (filename a)) (Attachments ctx')
      \<longrightarrow> categorize ctx = categorize ctx')"
  using contains_same_text [of hay hay' needle needle']
    contains_all_same_text [of hay hay' needles needles']
    attachment_name_contains_case [of ctx ctx' names names']
    categorize_same_text [of ctx ctx']
  by (intro conjI impI) (elim conjE, assumption)+

theorem subject_body_comparisons_normalised_witness:
  "same_text ''Fcy\<newline> Inward'' ''FCY INWARD''
   \<and> contains ''Fcy\<newline> Inward'' ''fcy  inward''
   \<and> contains ''FCY INWARD'' ''Fcy Inward''"
proof -
  have "same_text (''Fcy'' @ CHR ''\<newline>'' # ''Inward'') (''Fcy'' @ CHR ''\<newline>'' # CHR '' '' # ''Inward'')"
    by (rule same_text.st_run) (simp_all add: is_space_def)
  then have 1: "same_text ''Fcy\<newline> Inward'' ''Fcy\<newline>Inward''"
    by (simp add: same_text.st_sym)
  have "same_text (''Fcy'' @ CHR ''\<newline>'' # ''Inward'') (''Fcy'' @ CHR '' '' # ''Inward'')"
    by (rule same_text.st_space) (simp_all add: is_space_def)
  then have 2: "same_text ''Fcy\<newline>Inward'' ''Fcy Inward''" by simp
  have "lower ''Fcy Inward'' = lower ''FCY INWARD''" by code_simp
  then have 3: "same_text ''Fcy Inward'' ''FCY INWARD''" by (rule same_text.st_case)
  have h: "same_text ''Fcy\<newline> Inward'' ''FCY INWARD''"
    using 1 2 3 by (meson same_text.st_trans)
  have "same_text (''fcy'' @ CHR '' '' # ''inward'') (''fcy'' @ CHR '' '' # CHR '' '' # ''inward'')"
    by (rule same_text.st_run) (simp_all add: is_space_def)
  then have 4: "same_text ''fcy  inward'' ''fcy inward''"
    by (simp add: same_text.st_sym)
  have "lower ''fcy inward'' = lower ''Fcy Inward''" by code_simp
  then have "same_text ''fcy inward'' ''Fcy Inward''" by (rule same_text.st_case)
  with 4 have n: "same_text ''fcy  inward'' ''Fcy Inward''" by (rule same_text.st_trans)
  have c: "contains ''FCY INWARD'' ''Fcy Inward''" by code_simp
  have "contains ''Fcy\<newline> Inward'' ''fcy  inward'' = contains ''FCY INWARD'' ''Fcy Inward''"
    using subject_body_comparisons_normalised [of "''Fcy\<newline> Inward''" "''FCY INWARD''"
        "''fcy  inward''" "''Fcy Inward''"] h n
    by blast
  with h c show ?thesis by simp
qed

end
